theory Spec2Isabelle
  imports Main "HOL-Library.Finite_Map" "HOL-Library.Word"
begin

section \<open>Python values used by \<open>posthog/models/utils.py\<close>\<close>

text \<open>
  Python integers are unbounded and are modelled as \<open>int\<close>; the bit operations of
  \<open>int\<close> (\<open>AND\<close>, \<open>OR\<close>, \<open>push_bit\<close>, \<open>drop_bit\<close>) are two's complement on unbounded
  integers, as Python's \<open>&\<close>, \<open>|\<close>, \<open><<\<close> and \<open>>>\<close> are. Strings are \<open>string\<close>; every
  string the functions below build themselves is ASCII. Exceptions are values of \<open>exn\<close>
  and a function that can raise returns \<open>exn + 'a\<close>.
\<close>

unbundle bit_operations_syntax

datatype exn =
    ValueError
  | OverflowError
  | ZeroDivisionError
  | AssertionError
  | IntegrityError string
  | OtherError string
  | Exception string

text \<open>
  \<open>IntegrityError\<close> is Django's exception for every violated database constraint; its
  argument is the message naming the constraint. \<open>OtherError\<close> stands for any exception
  that is neither of the above, such as a lost connection.
\<close>

text \<open>The slice \<open>xs[:n]\<close>: a negative bound counts from the end.\<close>

definition slice_to :: "'a list \<Rightarrow> int \<Rightarrow> 'a list" where
  "slice_to xs n = (if 0 \<le> n then take (nat n) xs else take (nat (int (length xs) + n)) xs)"

text \<open>The slice \<open>xs[n:]\<close>: a negative bound counts from the end.\<close>

definition slice_from :: "'a list \<Rightarrow> int \<Rightarrow> 'a list" where
  "slice_from xs n = (if 0 \<le> n then drop (nat n) xs else drop (nat (int (length xs) + n)) xs)"

text \<open>\<open>s.replace(old, "")\<close>: every occurrence of \<open>old\<close>, found from the left, is removed.\<close>

function remove_all :: "'a list \<Rightarrow> 'a list \<Rightarrow> 'a list" where
  "remove_all old [] = []"
| "remove_all old (c # cs) =
     (if old \<noteq> [] \<and> take (length old) (c # cs) = old
      then remove_all old (drop (length old) (c # cs))
      else c # remove_all old cs)"
  by pat_completeness auto
termination
  by (relation "measure (\<lambda>(old, s). length s)") auto

text \<open>\<open>s.strip(chars)\<close>: leading and trailing characters among \<open>chars\<close> are removed.\<close>

definition strip :: "'a list \<Rightarrow> 'a list \<Rightarrow> 'a list" where
  "strip chars s =
     rev (dropWhile (\<lambda>c. c \<in> set chars) (rev (dropWhile (\<lambda>c. c \<in> set chars) s)))"

text \<open>
  Bytes are \<open>8 word\<close>. \<open>x.to_bytes(n, "big", signed=False)\<close> raises \<open>OverflowError\<close>
  when \<open>x\<close> is negative or does not fit; \<open>int.from_bytes\<close> reads a byte string back.
\<close>

type_synonym byte = "8 word"

fun big_endian :: "nat \<Rightarrow> int \<Rightarrow> byte list" where
  "big_endian 0 x = []"
| "big_endian (Suc n) x = big_endian n (x div 256) @ [word_of_int x]"

definition to_bytes_big :: "int \<Rightarrow> nat \<Rightarrow> exn + byte list" where
  "to_bytes_big x n =
     (if x < 0 \<or> 2 ^ (8 * n) \<le> x then Inl OverflowError else Inr (big_endian n x))"

definition from_bytes_big :: "byte list \<Rightarrow> int" where
  "from_bytes_big bs = foldl (\<lambda>acc b. acc * 256 + uint b) 0 bs"

definition from_bytes_little :: "byte list \<Rightarrow> int" where
  "from_bytes_little bs = foldr (\<lambda>b acc. uint b + 256 * acc) bs 0"

text \<open>
  A random generator (\<open>random.Random\<close>, and the system generator behind \<open>secrets\<close>) is a
  stream of raw draws and the number of draws consumed so far. \<open>getrandbits(k)\<close> returns
  an integer in \<open>[0, 2 ^ k)\<close>, \<open>secrets.token_bytes(n)\<close> returns \<open>n\<close> bytes and
  \<open>secrets.choice(seq)\<close> an element of a non-empty \<open>seq\<close>; which ones is up to the
  stream.
\<close>

datatype Random = Random (entropy: "nat \<Rightarrow> nat") (consumed: nat)

definition getrandbits :: "nat \<Rightarrow> Random \<Rightarrow> int \<times> Random" where
  "getrandbits k g =
     (int (entropy g (consumed g) mod 2 ^ k), Random (entropy g) (Suc (consumed g)))"

definition token_bytes :: "nat \<Rightarrow> Random \<Rightarrow> byte list \<times> Random" where
  "token_bytes n g =
     (map (\<lambda>i. of_nat (entropy g (consumed g + i))) [0..<n],
      Random (entropy g) (consumed g + n))"

definition choice :: "'a list \<Rightarrow> Random \<Rightarrow> 'a \<times> Random" where
  "choice seq g =
     (seq ! (entropy g (consumed g) mod length seq), Random (entropy g) (Suc (consumed g)))"

text \<open>Sequencing of computations that can raise.\<close>

definition and_then :: "exn + 'a \<Rightarrow> ('a \<Rightarrow> exn + 'b) \<Rightarrow> exn + 'b" where
  "and_then r f = (case r of Inl e \<Rightarrow> Inl e | Inr v \<Rightarrow> f v)"

section \<open>\<open>uuid.UUID\<close> of the standard library\<close>

text \<open>
  A \<open>UUID\<close> holds its 128-bit value as an integer. Its constructor takes a string of
  hexadecimal digits, 16 bytes or an integer, and raises \<open>ValueError\<close> for a string that
  does not have 32 digits once decoration is removed, for a byte string that is not 16
  bytes long and for an integer outside \<open>[0, 2 ^ 128)\<close>. Python's \<open>int(s, 16)\<close> is the
  parameter \<open>int16\<close> throughout: \<open>None\<close> where it raises \<open>ValueError\<close>.
\<close>

datatype UUID = UUID (int_value: int)

definition hex_digits :: "string \<Rightarrow> string" where
  "hex_digits s =
     remove_all ''-'' (strip ''{}'' (remove_all ''uuid:'' (remove_all ''urn:'' s)))"

definition UUID_of_int :: "int \<Rightarrow> exn + UUID" where
  "UUID_of_int i = (if 0 \<le> i \<and> i < push_bit 128 1 then Inr (UUID i) else Inl ValueError)"

definition UUID_of_hex :: "(string \<Rightarrow> int option) \<Rightarrow> string \<Rightarrow> exn + UUID" where
  "UUID_of_hex int16 s =
     (let hex = hex_digits s in
      if length hex \<noteq> 32 then Inl ValueError
      else case int16 hex of None \<Rightarrow> Inl ValueError | Some i \<Rightarrow> UUID_of_int i)"

definition UUID_of_bytes :: "byte list \<Rightarrow> exn + UUID" where
  "UUID_of_bytes bs =
     (if length bs \<noteq> 16 then Inl ValueError else UUID_of_int (from_bytes_big bs))"

text \<open>
  Python's \<open>int(s, 16)\<close> on a string of code points below 256, for the concrete inputs
  of the examples. Blanks around the number are skipped (the ASCII blanks and the two
  Latin-1 ones, \<open>U+0085\<close> and \<open>U+00A0\<close>), then come an optional sign and an optional
  prefix \<open>0x\<close> or \<open>0X\<close>, after which one underscore may stand, then hexadecimal digits
  with single underscores between them. Every other string raises \<open>ValueError\<close>:
  \<open>None\<close>.
\<close>

definition hex_digit :: "char \<Rightarrow> int option" where
  "hex_digit c =
     map_of (zip ''0123456789abcdef'' [0, 1, 2, 3, 4, 5, 6, 7, 8, 9, 10, 11, 12, 13, 14, 15]
             @ zip ''ABCDEF'' [10, 11, 12, 13, 14, 15]) c"

fun hex_value :: "int \<Rightarrow> string \<Rightarrow> int option" where
  "hex_value acc [] = Some acc"
| "hex_value acc (c # cs) =
     (case hex_digit c of None \<Rightarrow> None | Some d \<Rightarrow> hex_value (acc * 16 + d) cs)"

definition is_space :: "char \<Rightarrow> bool" where
  "is_space c \<longleftrightarrow> c \<in> set [CHR 0x09, CHR 0x0A, CHR 0x0B, CHR 0x0C, CHR 0x0D, CHR 0x20, CHR 0x85, CHR 0xA0]"

definition digit_or_underscore :: "char \<Rightarrow> bool" where
  "digit_or_underscore c \<longleftrightarrow> hex_digit c \<noteq> None \<or> c = CHR ''_''"

fun double_underscore :: "string \<Rightarrow> bool" where
  "double_underscore (a # b # cs) = (a = CHR ''_'' \<and> b = CHR ''_'' \<or> double_underscore (b # cs))"
| "double_underscore cs = False"

definition int_base16 :: "string \<Rightarrow> int option" where
  "int_base16 s =
     (let s1 = dropWhile is_space s;
          (negative, s2) =
            (case s1 of
               c # r \<Rightarrow> if c = CHR ''-'' then (True, r)
                        else if c = CHR ''+'' then (False, r) else (False, s1)
             | [] \<Rightarrow> (False, s1));
          s3 = (case s2 of
                  a # b # r \<Rightarrow>
                    if a = CHR ''0'' \<and> (b = CHR ''x'' \<or> b = CHR ''X'')
                    then (case r of c # r' \<Rightarrow> if c = CHR ''_'' then r' else r | [] \<Rightarrow> r)
                    else s2
                | _ \<Rightarrow> s2);
          body = takeWhile digit_or_underscore s3;
          rest = dropWhile digit_or_underscore s3
      in if body = [] \<or> hd body = CHR ''_'' \<or> last body = CHR ''_'' \<or> double_underscore body
            \<or> dropWhile is_space rest \<noteq> []
         then None
         else map_option (\<lambda>v. if negative then - v else v)
                (hex_value 0 (filter (\<lambda>c. c \<noteq> CHR ''_'') body)))"

section \<open>The legacy time-ordered identifier \<open>UUIDT\<close>\<close>

text \<open>
  \<open>current_series_per_ms\<close> is a \<open>defaultdict(int)\<close> shared by the whole process: a
  finite map from milliseconds to the next series value. Reading a key that is absent
  stores 0 under it first.
\<close>

type_synonym series_map = "(int, int) fmap"

definition getitem :: "series_map \<Rightarrow> int \<Rightarrow> int \<times> series_map" where
  "getitem m k = (case fmlookup m k of Some v \<Rightarrow> (v, m) | None \<Rightarrow> (0, fmupd k 0 m))"

text \<open>
  \<^verbatim>\<open>
  def get_series(cls, unix_time_ms: int) -> int:
      series = cls.current_series_per_ms[unix_time_ms]
      if len(cls.current_series_per_ms) > 10_000:  # Clear class dict periodically
          cls.current_series_per_ms.clear()
          cls.current_series_per_ms[unix_time_ms] = series
      cls.current_series_per_ms[unix_time_ms] += 1
      cls.current_series_per_ms[unix_time_ms] %= 65_536
      return series
  \<close>
  \<open>series_read\<close> is the map after the first line; \<open>get_series\<close> returns the series and
  the map the call leaves behind.
\<close>

definition series_read :: "series_map \<Rightarrow> int \<Rightarrow> series_map" where
  "series_read m unix_time_ms = snd (getitem m unix_time_ms)"

definition get_series :: "series_map \<Rightarrow> int \<Rightarrow> int \<times> series_map" where
  "get_series m unix_time_ms =
     (let (series, m1) = getitem m unix_time_ms;
          m2 = (if fcard (fmdom m1) > 10000 then fmupd unix_time_ms series fmempty else m1);
          (v3, m3) = getitem m2 unix_time_ms;
          m4 = fmupd unix_time_ms (v3 + 1) m3;
          (v5, m5) = getitem m4 unix_time_ms;
          m6 = fmupd unix_time_ms (v5 mod 65536) m5
      in (series, m6))"

text \<open>
  \<^verbatim>\<open>
  def is_valid_uuid(cls, candidate: Any) -> bool:
      if not isinstance(candidate, str):
          return False
      hex = candidate.replace("urn:", "").replace("uuid:", "")
      hex = hex.strip("{}").replace("-", "")
      if len(hex) != 32:
          return False
      return 0 <= int(hex, 16) < 1 << 128
  \<close>
  The candidate is a string here, so the first test never fires.
\<close>

definition is_valid_uuid :: "(string \<Rightarrow> int option) \<Rightarrow> string \<Rightarrow> exn + bool" where
  "is_valid_uuid int16 candidate =
     (let hex = remove_all ''uuid:'' (remove_all ''urn:'' candidate);
          hex = remove_all ''-'' (strip ''{}'' hex)
      in if length hex \<noteq> 32 then Inr False
         else case int16 hex of
                None \<Rightarrow> Inl ValueError
              | Some i \<Rightarrow> Inr (0 \<le> i \<and> i < push_bit 128 1))"

text \<open>
  \<^verbatim>\<open>
  def __init__(self, unix_time_ms=None, uuid_str=None, *, seeded_random=None) -> None:
      if uuid_str and self.is_valid_uuid(uuid_str):
          super().__init__(uuid_str)
          return
      if unix_time_ms is None:
          unix_time_ms = int(time() * 1000)
      time_component = unix_time_ms.to_bytes(6, "big", signed=False)
      series_component = self.get_series(unix_time_ms).to_bytes(2, "big", signed=False)
      if seeded_random is not None:
          random_component = bytes(seeded_random.getrandbits(8) for _ in range(8))
      else:
          random_component = secrets.token_bytes(8)
      input_bytes = time_component + series_component + random_component
      assert len(input_bytes) == 16
      super().__init__(bytes=input_bytes)
  \<close>
  \<open>now_ms\<close> is the clock's reading \<open>int(time() * 1000)\<close> and \<open>sysrand\<close> the system
  generator. \<open>random_component\<close> is the value of the last \<open>if\<close> (a draw of
  \<open>getrandbits(8)\<close> is below 256, so \<open>bytes\<close> accepts it) and \<open>mint\<close> the part after
  the first \<open>if\<close>. The result pairs the identifier (or the exception) with the
  series map the call leaves behind.
\<close>

fun seeded_bytes :: "nat \<Rightarrow> Random \<Rightarrow> byte list \<times> Random" where
  "seeded_bytes 0 g = ([], g)"
| "seeded_bytes (Suc n) g =
     (let (b, g1) = getrandbits 8 g; (bs, g2) = seeded_bytes n g1 in (word_of_int b # bs, g2))"

definition random_component :: "Random \<Rightarrow> Random option \<Rightarrow> byte list" where
  "random_component sysrand seeded_random =
     (case seeded_random of
        Some g \<Rightarrow> fst (seeded_bytes 8 g)
      | None \<Rightarrow> fst (token_bytes 8 sysrand))"

definition mint ::
  "int \<Rightarrow> Random \<Rightarrow> series_map \<Rightarrow> int option \<Rightarrow> Random option
     \<Rightarrow> (exn + UUID) \<times> series_map" where
  "mint now_ms sysrand m unix_time_ms seeded_random =
     (let unix_time_ms = (case unix_time_ms of None \<Rightarrow> now_ms | Some t \<Rightarrow> t) in
      case to_bytes_big unix_time_ms 6 of
        Inl e \<Rightarrow> (Inl e, m)
      | Inr time_component \<Rightarrow>
          (let (series, m') = get_series m unix_time_ms in
           case to_bytes_big series 2 of
             Inl e \<Rightarrow> (Inl e, m')
           | Inr series_component \<Rightarrow>
               (let input_bytes =
                      time_component @ series_component
                        @ random_component sysrand seeded_random
                in if length input_bytes \<noteq> 16 then (Inl AssertionError, m')
                   else (UUID_of_bytes input_bytes, m'))))"

definition UUIDT_init ::
  "(string \<Rightarrow> int option) \<Rightarrow> int \<Rightarrow> Random \<Rightarrow> series_map
     \<Rightarrow> int option \<Rightarrow> string option \<Rightarrow> Random option \<Rightarrow> (exn + UUID) \<times> series_map" where
  "UUIDT_init int16 now_ms sysrand m unix_time_ms uuid_str seeded_random =
     (case uuid_str of
        None \<Rightarrow> mint now_ms sysrand m unix_time_ms seeded_random
      | Some s \<Rightarrow>
          if s = [] then mint now_ms sysrand m unix_time_ms seeded_random
          else case is_valid_uuid int16 s of
                 Inl e \<Rightarrow> (Inl e, m)
               | Inr True \<Rightarrow> (UUID_of_hex int16 s, m)
               | Inr False \<Rightarrow> mint now_ms sysrand m unix_time_ms seeded_random)"

section \<open>The version 7 identifier\<close>

text \<open>
  \<^verbatim>\<open>
  def uuid7(unix_ms_time=None, random=None) -> uuid.UUID:
      if isinstance(unix_ms_time, str):
          date = datetime.datetime.fromisoformat(unix_ms_time)
          unix_ms_time_int = int(date.timestamp() * 1000)
      elif unix_ms_time is None:
          unix_ms_time_int = time_ns() // (10**6)
      else:
          unix_ms_time_int = unix_ms_time
      if isinstance(random, int):
          rand_a = random & 0x0FFF
          rand_b = random >> 12 & 0x03FFFFFFFFFFFFFFF
      elif random is not None:
          rand_a = random.getrandbits(12)
          rand_b = random.getrandbits(56)
      else:
          rand_bytes = int.from_bytes(secrets.token_bytes(10), byteorder="little")
          rand_a = rand_bytes & 0x0FFF
          rand_b = (rand_bytes >> 12) & 0x03FFFFFFFFFFFFFFF
      ver = 7
      var = 0b10
      uuid_int = (unix_ms_time_int & 0x0FFFFFFFFFFFF) << 80
      uuid_int |= ver << 76
      uuid_int |= rand_a << 64
      uuid_int |= var << 62
      uuid_int |= rand_b
      return uuid.UUID(int=uuid_int)
  \<close>
  The mask \<open>0x0FFF\<close> is \<open>2 ^ 12 - 1\<close>, \<open>0x03FFFFFFFFFFFFFFF\<close> (a 3 and fifteen F) is
  \<open>2 ^ 62 - 1\<close> and \<open>0x0FFFFFFFFFFFF\<close> (twelve F) is \<open>2 ^ 48 - 1\<close>. The milliseconds of
  an ISO-8601 string, \<open>int(fromisoformat(s).timestamp() * 1000)\<close>, are the parameter
  \<open>iso_ms\<close>: \<open>None\<close> where the conversion raises, which \<open>fromisoformat\<close> does with
  \<open>ValueError\<close> for a string it cannot read. \<open>time_ns\<close> is the clock's reading.
\<close>

datatype ms_time = TimeInt int | TimeStr string

datatype rand_arg = RandInt int | RandGen Random

definition uuid7_int :: "int \<Rightarrow> int \<Rightarrow> int \<Rightarrow> int" where
  "uuid7_int unix_ms_time_int rand_a rand_b =
     (let ver = 7; var = 2;
          uuid_int = push_bit 80 (unix_ms_time_int AND 0xFFFFFFFFFFFF);
          uuid_int = uuid_int OR push_bit 76 ver;
          uuid_int = uuid_int OR push_bit 64 rand_a;
          uuid_int = uuid_int OR push_bit 62 var;
          uuid_int = uuid_int OR rand_b
      in uuid_int)"

definition uuid7_rand :: "Random \<Rightarrow> rand_arg option \<Rightarrow> int \<times> int" where
  "uuid7_rand sysrand random =
     (case random of
        Some (RandInt r) \<Rightarrow> (r AND 0xFFF, drop_bit 12 r AND 0x3FFFFFFFFFFFFFFF)
      | Some (RandGen g) \<Rightarrow>
          (let (rand_a, g1) = getrandbits 12 g; (rand_b, g2) = getrandbits 56 g1
           in (rand_a, rand_b))
      | None \<Rightarrow>
          (let rand_bytes = from_bytes_little (fst (token_bytes 10 sysrand))
           in (rand_bytes AND 0xFFF, drop_bit 12 rand_bytes AND 0x3FFFFFFFFFFFFFFF)))"

definition uuid7 ::
  "(string \<Rightarrow> int option) \<Rightarrow> int \<Rightarrow> Random \<Rightarrow> ms_time option \<Rightarrow> rand_arg option
     \<Rightarrow> exn + UUID" where
  "uuid7 iso_ms time_ns sysrand unix_ms_time random =
     and_then
       (case unix_ms_time of
          Some (TimeStr s) \<Rightarrow> (case iso_ms s of None \<Rightarrow> Inl ValueError | Some t \<Rightarrow> Inr t)
        | None \<Rightarrow> Inr (time_ns div 10 ^ 6)
        | Some (TimeInt t) \<Rightarrow> Inr t)
       (\<lambda>unix_ms_time_int.
          let (rand_a, rand_b) = uuid7_rand sysrand random
          in UUID_of_int (uuid7_int unix_ms_time_int rand_a rand_b))"

section \<open>Masking a key for display\<close>

text \<open>
  \<^verbatim>\<open>
  def mask_key_value(value: str) -> str:
      if len(value) < 16:
          return "********"
      return f"{value[:4]}...{value[-4:]}"
  \<close>
\<close>

definition mask_key_value :: "string \<Rightarrow> string" where
  "mask_key_value value =
     (if length value < 16 then ''********''
      else slice_to value 4 @ ''...'' @ slice_from value (- 4))"

section \<open>Base-N encoding\<close>

text \<open>\<open>BASE62 = string.digits + string.ascii_letters\<close>.\<close>

definition ascii_letters :: string where
  "ascii_letters = ''abcdefghijklmnopqrstuvwxyz'' @ ''ABCDEFGHIJKLMNOPQRSTUVWXYZ''"

definition BASE62 :: string where
  "BASE62 = ''0123456789'' @ ascii_letters"

text \<open>
  \<^verbatim>\<open>
  def int_to_base(number: int, base: int) -> str:
      if base > 62:
          raise ValueError("Cannot convert integer to base above 62")
      alphabet = BASE62[:base]
      if number < 0:
          return "-" + int_to_base(-number, base)
      value = ""
      while number != 0:
          number, index = divmod(number, len(alphabet))
          value = alphabet[index] + value
      return value or "0"
  \<close>
  The \<open>while\<close> loop is \<open>encode_loop\<close>. Nothing bounds it from the outside, so it is a
  partial function: \<open>None\<close> is a run that never returns, \<open>Some (Inl e)\<close> a run that
  raises \<open>e\<close>. \<open>divmod\<close> by the length of an empty alphabet raises
  \<open>ZeroDivisionError\<close>; for a non-empty alphabet the index is in range, since Python's
  \<open>divmod\<close> rounds down as \<open>div\<close> and \<open>mod\<close> on \<open>int\<close> do.
\<close>

partial_function (option)
  encode_loop :: "int \<Rightarrow> string \<Rightarrow> string \<Rightarrow> (exn + string) option" where
  "encode_loop number alphabet val =
     (if number \<noteq> 0 then
        (if length alphabet = 0 then Some (Inl ZeroDivisionError)
         else encode_loop (number div int (length alphabet)) alphabet
                (alphabet ! nat (number mod int (length alphabet)) # val))
      else Some (Inr val))"

partial_function (option)
  int_to_base :: "int \<Rightarrow> int \<Rightarrow> (exn + string) option" where
  "int_to_base number base =
     (if base > 62 then Some (Inl ValueError)
      else if number < 0 then
        Option.bind (int_to_base (- number) base)
          (\<lambda>r. Some (case r of Inl e \<Rightarrow> Inl e | Inr s \<Rightarrow> Inr (''-'' @ s)))
      else
        Option.bind (encode_loop number (slice_to BASE62 base) [])
          (\<lambda>r. Some (case r of Inl e \<Rightarrow> Inl e
                        | Inr v \<Rightarrow> Inr (if v = [] then ''0'' else v))))"

declare encode_loop.simps [code]
declare int_to_base.simps [code]

section \<open>Creating a model with a unique slug\<close>

text \<open>
  \<^verbatim>\<open>
  def generate_random_short_suffix():
      return "".join(secrets.choice(string.ascii_letters) for _ in range(4))
  \<close>
\<close>

fun choices :: "nat \<Rightarrow> 'a list \<Rightarrow> Random \<Rightarrow> 'a list \<times> Random" where
  "choices 0 seq g = ([], g)"
| "choices (Suc n) seq g =
     (let (c, g1) = choice seq g; (cs, g2) = choices n seq g1 in (c # cs, g2))"

definition generate_random_short_suffix :: "Random \<Rightarrow> string \<times> Random" where
  "generate_random_short_suffix g = choices 4 ascii_letters g"

text \<open>
  \<^verbatim>\<open>
  def create_with_slug(create_func, default_slug="", *args, **kwargs):
      slugified_name = slugify(kwargs["name"])[:MAX_SLUG_LENGTH] if "name" in kwargs else default_slug
      for retry_i in range(10):
          if not retry_i:
              kwargs["slug"] = slugified_name
          else:
              kwargs["slug"] = f"{slugified_name[: MAX_SLUG_LENGTH - 5]}-{generate_random_short_suffix()}"
          try:
              with transaction.atomic():
                  return create_func(*args, **kwargs)
          except IntegrityError:
              continue
      raise Exception("Could not create a model instance with slug in 10 tries!")
  \<close>
  Django's \<open>slugify\<close> and the constant \<open>MAX_SLUG_LENGTH\<close> of \<open>posthog.constants\<close> are
  parameters. \<open>name\<close> is \<open>kwargs["name"]\<close> when present. The collaborator \<open>create_func\<close>
  is called with the slug in a store \<open>'s\<close> and returns the created model or the
  exception it raises, and the store it leaves. \<open>slugified_name\<close> is the first line,
  \<open>candidate_slug\<close> the slug of one round of the loop and \<open>create_attempts\<close> the loop
  over the rounds that remain. The result is what the call returns or raises, the store,
  and the calls of \<open>create_func\<close> in order, each with its slug and its outcome.
\<close>

definition candidate_slug :: "int \<Rightarrow> string \<Rightarrow> nat \<Rightarrow> Random \<Rightarrow> string \<times> Random" where
  "candidate_slug MAX_SLUG_LENGTH slugified_name retry_i g =
     (if retry_i = 0 then (slugified_name, g)
      else let (suffix, g1) = generate_random_short_suffix g
           in (slice_to slugified_name (MAX_SLUG_LENGTH - 5) @ ''-'' @ suffix, g1))"

fun create_attempts ::
  "int \<Rightarrow> ('s \<Rightarrow> string \<Rightarrow> (exn + 'a) \<times> 's) \<Rightarrow> string \<Rightarrow> nat list \<Rightarrow> 's \<Rightarrow> Random
     \<Rightarrow> (string \<times> (exn + 'a)) list \<Rightarrow> (exn + 'a) \<times> 's \<times> (string \<times> (exn + 'a)) list" where
  "create_attempts MAX_SLUG_LENGTH create_func slugified_name [] st g calls =
     (Inl (Exception ''Could not create a model instance with slug in 10 tries!''), st, calls)"
| "create_attempts MAX_SLUG_LENGTH create_func slugified_name (retry_i # rest) st g calls =
     (let (slug, g1) = candidate_slug MAX_SLUG_LENGTH slugified_name retry_i g;
          (r, st1) = create_func st slug
      in case r of
           Inr model \<Rightarrow> (Inr model, st1, calls @ [(slug, r)])
         | Inl (IntegrityError msg) \<Rightarrow>
             create_attempts MAX_SLUG_LENGTH create_func slugified_name rest st1 g1
               (calls @ [(slug, r)])
         | Inl e \<Rightarrow> (Inl e, st1, calls @ [(slug, r)]))"

definition slugified_name :: "(string \<Rightarrow> string) \<Rightarrow> int \<Rightarrow> string \<Rightarrow> string option \<Rightarrow> string" where
  "slugified_name slugify MAX_SLUG_LENGTH default_slug name =
     (case name of
        Some n \<Rightarrow> slice_to (slugify n) MAX_SLUG_LENGTH
      | None \<Rightarrow> default_slug)"

definition create_with_slug ::
  "(string \<Rightarrow> string) \<Rightarrow> int \<Rightarrow> ('s \<Rightarrow> string \<Rightarrow> (exn + 'a) \<times> 's) \<Rightarrow> string
     \<Rightarrow> string option \<Rightarrow> 's \<Rightarrow> Random
     \<Rightarrow> (exn + 'a) \<times> 's \<times> (string \<times> (exn + 'a)) list" where
  "create_with_slug slugify MAX_SLUG_LENGTH create_func default_slug name st sysrand =
     create_attempts MAX_SLUG_LENGTH create_func
       (slugified_name slugify MAX_SLUG_LENGTH default_slug name) [0..<10] st sysrand []"

text \<open>
  The series the next call of \<open>get_series\<close> at \<open>t\<close> reads: the stored value, or 0 for
  a millisecond that is not tracked.
\<close>

definition tracked :: "series_map \<Rightarrow> int \<Rightarrow> int" where
  "tracked m t = (case fmlookup m t of Some v \<Rightarrow> v | None \<Rightarrow> 0)"

text \<open>\<open>k\<close> consecutive calls of \<open>get_series\<close> at the same millisecond, with the series they return.\<close>

fun series_run :: "nat \<Rightarrow> series_map \<Rightarrow> int \<Rightarrow> int list \<times> series_map" where
  "series_run 0 m t = ([], m)"
| "series_run (Suc k) m t =
     (let (s, m1) = get_series m t; (ss, m2) = series_run k m1 t in (s # ss, m2))"

text \<open>The maps one process can hold: it starts with the empty map, and only \<open>get_series\<close> changes it.\<close>

inductive reachable :: "series_map \<Rightarrow> bool" where
  start: "reachable fmempty"
| call: "reachable m \<Longrightarrow> reachable (snd (get_series m t))"

text \<open>A map that tracks the \<open>n\<close> milliseconds \<open>0, \<dots>, n - 1\<close>, each with next series 7.\<close>

definition full_map :: "nat \<Rightarrow> series_map" where
  "full_map n = fmap_of_list (map (\<lambda>i. (int i, 7)) [0..<n])"

text \<open>Fixed inputs for the examples: a generator, and 32 characters that are no digits.\<close>

definition test_random :: Random where
  "test_random = Random (\<lambda>i. i + 200) 0"

definition bad_digits :: string where
  "bad_digits = ''zzzzzzzzzzzzzzzzzzzzzzzzzzzzzzzz''"

text \<open>An ISO-8601 parser that rejects every string, for examples that pass no string.\<close>

definition no_iso :: "string \<Rightarrow> int option" where
  "no_iso s = None"

text \<open>What \<open>except IntegrityError\<close> catches, and the exception raised after the last round.\<close>

definition is_IntegrityError :: "exn + 'a \<Rightarrow> bool" where
  "is_IntegrityError r = (case r of Inl (IntegrityError msg) \<Rightarrow> True | _ \<Rightarrow> False)"

definition exhausted :: exn where
  "exhausted = Exception ''Could not create a model instance with slug in 10 tries!''"

text \<open>
  The rounds of the loop one by one, for stating what \<open>create_with_slug\<close> does.
  \<open>advance g n\<close> is the generator \<open>g\<close> after \<open>n\<close> more draws. Round 0 draws nothing and
  every later round draws four letters, so round \<open>k\<close> starts with the generator advanced
  by \<open>4 * (k - 1)\<close>: \<open>nth_slug\<close> is the slug \<open>candidate_slug\<close> gives there. \<open>nth_store\<close>
  is the store before round \<open>k\<close>, when every earlier round has called \<open>create_func\<close>, and
  \<open>nth_outcome\<close> is what \<open>create_func\<close> returns or raises in round \<open>k\<close>.
\<close>

definition advance :: "Random \<Rightarrow> nat \<Rightarrow> Random" where
  "advance g n = Random (entropy g) (consumed g + n)"

definition nth_slug :: "int \<Rightarrow> string \<Rightarrow> Random \<Rightarrow> nat \<Rightarrow> string" where
  "nth_slug MAX_SLUG_LENGTH base g k =
     fst (candidate_slug MAX_SLUG_LENGTH base k (advance g (4 * (k - 1))))"

fun nth_store :: "('s \<Rightarrow> string \<Rightarrow> (exn + 'a) \<times> 's) \<Rightarrow> (nat \<Rightarrow> string) \<Rightarrow> 's \<Rightarrow> nat \<Rightarrow> 's" where
  "nth_store create_func slug st 0 = st"
| "nth_store create_func slug st (Suc k) =
     snd (create_func (nth_store create_func slug st k) (slug k))"

definition nth_outcome ::
  "('s \<Rightarrow> string \<Rightarrow> (exn + 'a) \<times> 's) \<Rightarrow> (nat \<Rightarrow> string) \<Rightarrow> 's \<Rightarrow> nat \<Rightarrow> exn + 'a" where
  "nth_outcome create_func slug st k = fst (create_func (nth_store create_func slug st k) (slug k))"

text \<open>
  Fixed inputs for the examples: a \<open>slugify\<close> for names that are slugs already, a
  collaborator that plays a script of outcomes and then creates the model (the slug
  stands for it), a violation of a constraint other than the uniqueness of the slug, and
  a failure that is no \<open>IntegrityError\<close>.
\<close>

definition keep_slug :: "string \<Rightarrow> string" where
  "keep_slug s = s"

definition scripted :: "(exn + string) list \<Rightarrow> string \<Rightarrow> (exn + string) \<times> (exn + string) list" where
  "scripted script slug = (case script of [] \<Rightarrow> (Inr slug, []) | r # rest \<Rightarrow> (r, rest))"

definition not_null_violation :: exn where
  "not_null_violation = IntegrityError ''null value in column owner_id violates not-null constraint''"

definition connection_lost :: exn where
  "connection_lost = OtherError ''OperationalError: server closed the connection unexpectedly''"

section \<open>Properties\<close>

text \<open>
  C1, amended: a key shorter than 16 characters is masked whole by the 8-character
  string of asterisks, and a key of at least 16 characters becomes its first four
  characters, three dots and its last four characters. The 12-character key
  \<open>phx_abcdEFGH\<close> falls under the first case: it is masked whole.
\<close>

theorem mask_key_value_cases:
  "(length v < 16 \<longrightarrow> mask_key_value v = ''********'' \<and> length (mask_key_value v) = 8)
   \<and> (16 \<le> length v \<longrightarrow>
        mask_key_value v = take 4 v @ ''...'' @ drop (length v - 4) v
        \<and> length (mask_key_value v) = 11)
   \<and> mask_key_value ''phx_abcdEFGH'' = ''********''"
  by (auto simp: mask_key_value_def slice_to_def slice_from_def nat_diff_distrib')

theorem mask_key_value_cases_witness:
  "length ''phx_abcdEFGH'' < 16 \<and> mask_key_value ''phx_abcdEFGH'' = ''********''
   \<and> 16 \<le> length ''phx_0123456789abcdEFGH''
   \<and> mask_key_value ''phx_0123456789abcdEFGH'' = ''phx_...EFGH''"
  using mask_key_value_cases [of "''phx_abcdEFGH''"]
    mask_key_value_cases [of "''phx_0123456789abcdEFGH''"]
  by simp

theorem mask_key_value_counterexample:
  "mask_key_value ''phx_abcdEFGH'' \<noteq> ''phx_...EFGH''"
  by (simp add: mask_key_value_def)

subsection \<open>Termination of the base-N encoder\<close>

lemma encode_loop_total:
  assumes "2 \<le> length a"
  shows "0 \<le> n \<Longrightarrow> \<exists>s. encode_loop n a v = Some (Inr s) \<and> (n \<noteq> 0 \<or> v \<noteq> [] \<longrightarrow> s \<noteq> [])"
proof (induction "nat n" arbitrary: n v rule: less_induct)
  case less
  show ?case
  proof (cases "n = 0")
    case True
    then show ?thesis by (subst encode_loop.simps) simp
  next
    case False
    let ?b = "int (length a)"
    have b: "2 \<le> ?b" using assms by simp
    have pos: "0 < n" using False less.prems by simp
    have b0: "0 < ?b" using b by linarith
    have d0: "0 \<le> n div ?b" using pos pos_imp_zdiv_nonneg_iff [OF b0, of n] by simp
    have dl: "n div ?b < n" using pos b by (simp add: int_div_less_self)
    have "nat (n div ?b) < nat n" using dl d0 pos by simp
    from less.hyps [OF this d0, of "a ! nat (n mod ?b) # v"]
    obtain s where "encode_loop (n div ?b) a (a ! nat (n mod ?b) # v) = Some (Inr s)" "s \<noteq> []"
      by auto
    moreover have "length a \<noteq> 0" using assms by auto
    ultimately show ?thesis using False
      by (subst encode_loop.simps) simp
  qed
qed

lemma encode_loop_stuck:
  "encode_loop n a v = Some r \<Longrightarrow> length a = 1 \<longrightarrow> n = 0"
proof (rule encode_loop.raw_induct [where P = "\<lambda>n a v r. length a = 1 \<longrightarrow> n = 0"])
  fix f :: "int \<Rightarrow> string \<Rightarrow> string \<Rightarrow> (exn + string) option"
    and number :: int and alphabet val :: string and y :: "exn + string"
  assume IH: "\<And>number alphabet val y. f number alphabet val = Some y \<Longrightarrow> length alphabet = 1 \<longrightarrow> number = 0"
    and step: "(if number \<noteq> 0 then
        (if length alphabet = 0 then Some (Inl ZeroDivisionError)
         else f (number div int (length alphabet)) alphabet
                (alphabet ! nat (number mod int (length alphabet)) # val))
      else Some (Inr val)) = Some y"
  show "length alphabet = 1 \<longrightarrow> number = 0"
  proof (intro impI, rule ccontr)
    assume l: "length alphabet = 1" and n: "number \<noteq> 0"
    from step n l have "f number alphabet (alphabet ! nat (number mod 1) # val) = Some y" by simp
    from IH [OF this] l n show False by simp
  qed
qed

lemma encode_loop_None:
  "n \<noteq> 0 \<Longrightarrow> length a = 1 \<Longrightarrow> encode_loop n a v = None"
  using encode_loop_stuck [of n a v] by (cases "encode_loop n a v") auto

lemma encode_loop_ZeroDivisionError:
  "n \<noteq> 0 \<Longrightarrow> encode_loop n [] v = Some (Inl ZeroDivisionError)"
  by (subst encode_loop.simps) simp

lemma length_BASE62: "length BASE62 = 62"
  by (simp add: BASE62_def ascii_letters_def)

lemma length_slice_to_BASE62:
  "length (slice_to BASE62 base) =
     (if 0 \<le> base then min (nat base) 62 else nat (62 + base))"
  by (auto simp: slice_to_def length_BASE62 min_def)

lemma int_to_base_nonneg:
  "base \<le> 62 \<Longrightarrow> 0 \<le> n \<Longrightarrow> int_to_base n base =
     Option.bind (encode_loop n (slice_to BASE62 base) [])
       (\<lambda>r. Some (case r of Inl e \<Rightarrow> Inl e | Inr v \<Rightarrow> Inr (if v = [] then ''0'' else v)))"
  by (subst int_to_base.simps) simp

lemma int_to_base_neg:
  "base \<le> 62 \<Longrightarrow> n < 0 \<Longrightarrow> int_to_base n base =
     Option.bind (int_to_base (- n) base)
       (\<lambda>r. Some (case r of Inl e \<Rightarrow> Inl e | Inr s \<Rightarrow> Inr (''-'' @ s)))"
  by (subst int_to_base.simps) simp

lemma int_to_base_total_nonneg:
  assumes "2 \<le> base" "base \<le> 62" "0 \<le> n"
  shows "\<exists>s. int_to_base n base = Some (Inr s) \<and> s \<noteq> []"
proof -
  have "2 \<le> length (slice_to BASE62 base)"
    using assms by (simp add: length_slice_to_BASE62)
  from encode_loop_total [OF this assms(3), of "[]"]
  obtain s where "encode_loop n (slice_to BASE62 base) [] = Some (Inr s)" by blast
  then show ?thesis using assms by (simp add: int_to_base_nonneg)
qed

lemma int_to_base_total:
  assumes "2 \<le> base" "base \<le> 62"
  shows "\<exists>s. int_to_base n base = Some (Inr s) \<and> s \<noteq> []"
proof (cases "0 \<le> n")
  case True
  then show ?thesis using assms by (rule_tac int_to_base_total_nonneg)
next
  case False
  then have "0 \<le> - n" by simp
  from int_to_base_total_nonneg [OF assms this]
  obtain s where "int_to_base (- n) base = Some (Inr s)" by blast
  then show ?thesis using False assms by (simp add: int_to_base_neg)
qed

lemma int_to_base_diverges_nonneg:
  assumes "length (slice_to BASE62 base) = 1" "base \<le> 62" "0 < n"
  shows "int_to_base n base = None"
  using assms by (simp add: int_to_base_nonneg encode_loop_None)

lemma int_to_base_diverges:
  assumes "base = 1 \<or> base = - 61" "n \<noteq> 0"
  shows "int_to_base n base = None"
proof -
  have l: "length (slice_to BASE62 base) = 1" and b: "base \<le> 62"
    using assms(1) by (auto simp: length_slice_to_BASE62)
  show ?thesis
  proof (cases "0 < n")
    case True
    then show ?thesis using l b by (rule_tac int_to_base_diverges_nonneg)
  next
    case False
    then have "0 < - n" "n < 0" using assms(2) by simp_all
    then show ?thesis using int_to_base_diverges_nonneg [OF l b, of "- n"] b
      by (simp add: int_to_base_neg)
  qed
qed

lemma int_to_base_raises:
  assumes "base = 0 \<or> base \<le> - 62" "n \<noteq> 0"
  shows "int_to_base n base = Some (Inl ZeroDivisionError)"
proof -
  have l: "slice_to BASE62 base = []" and b: "base \<le> 62"
    using assms(1) by (auto simp: slice_to_def length_BASE62)
  have pos: "int_to_base m base = Some (Inl ZeroDivisionError)" if "0 < m" for m
    using that l b by (simp add: int_to_base_nonneg encode_loop_ZeroDivisionError)
  show ?thesis
  proof (cases "0 < n")
    case True
    then show ?thesis by (rule pos)
  next
    case False
    then have "0 < - n" "n < 0" using assms(2) by simp_all
    then show ?thesis using pos [of "- n"] b by (simp add: int_to_base_neg)
  qed
qed

text \<open>
  C10: for a base from 2 to 62, \<open>int_to_base\<close> returns for every integer, and what it
  returns is a non-empty string. Outside that range termination is not guaranteed, though
  the only guard is \<open>base > 62\<close>: with base 1 the loop divides by 1 and never returns
  for any non-zero number, and for a base that leaves the alphabet empty (0, or at most
  -62) the division is unguarded and raises \<open>ZeroDivisionError\<close>.
\<close>

theorem int_to_base_termination:
  "(2 \<le> base \<and> base \<le> 62 \<longrightarrow> (\<exists>s. int_to_base n base = Some (Inr s) \<and> s \<noteq> []))
   \<and> (n \<noteq> 0 \<longrightarrow> int_to_base n 1 = None)
   \<and> (n \<noteq> 0 \<and> (base = 0 \<or> base \<le> - 62) \<longrightarrow> int_to_base n base = Some (Inl ZeroDivisionError))"
  using int_to_base_total [of base n] int_to_base_diverges [of 1 n] int_to_base_raises [of base n]
  by simp

theorem int_to_base_termination_witness:
  "(2::int) \<le> 62 \<and> (62::int) \<le> 62 \<and> (\<exists>s. int_to_base 12345 62 = Some (Inr s) \<and> s \<noteq> [])
   \<and> (5::int) \<noteq> 0 \<and> int_to_base 5 1 = None
   \<and> int_to_base 5 0 = Some (Inl ZeroDivisionError)"
  using int_to_base_termination [of 62 12345] int_to_base_termination [of 0 5]
  by simp

subsection \<open>The per-millisecond series\<close>

lemma fmdom_series_read: "fmdom (series_read m t) = finsert t (fmdom m)"
  by (auto simp: series_read_def getitem_def split: option.splits dest: fmdomI)

lemma get_series_fst: "fst (get_series m t) = tracked m t"
  by (simp add: get_series_def getitem_def tracked_def Let_def split: option.splits)

lemma get_series_snd:
  "snd (get_series m t) =
     fmupd t ((tracked m t + 1) mod 65536)
       (if fcard (fmdom (series_read m t)) > 10000 then fmempty else m)"
  by (simp add: get_series_def getitem_def tracked_def series_read_def Let_def
      split: option.splits)

lemma tracked_get_series: "tracked (snd (get_series m t)) t = (tracked m t + 1) mod 65536"
  by (simp add: get_series_snd tracked_def)

lemma series_run_from:
  "fst (series_run k m t) = map (\<lambda>i. (tracked m t + int i) mod 65536) [0..<k]
   \<and> tracked (snd (series_run k m t)) t = (tracked m t + int k) mod 65536"
  if "0 \<le> tracked m t" "tracked m t < 65536"
  using that
proof (induction k arbitrary: m)
  case 0
  then show ?case by simp
next
  case (Suc k)
  let ?m1 = "snd (get_series m t)"
  have t1: "tracked ?m1 t = (tracked m t + 1) mod 65536" by (rule tracked_get_series)
  then have "0 \<le> tracked ?m1 t" "tracked ?m1 t < 65536" by simp_all
  from Suc.IH [OF this]
  have run: "fst (series_run k ?m1 t) = map (\<lambda>i. (tracked ?m1 t + int i) mod 65536) [0..<k]"
    and fin: "tracked (snd (series_run k ?m1 t)) t = (tracked ?m1 t + int k) mod 65536"
    by simp_all
  have shift: "(tracked ?m1 t + int i) mod 65536 = (tracked m t + int (Suc i)) mod 65536" for i
    unfolding t1 by (simp add: mod_simps ac_simps)
  have hd: "fst (get_series m t) = (tracked m t + int 0) mod 65536"
    using Suc.prems by (simp add: get_series_fst)
  have "fst (series_run (Suc k) m t) = fst (get_series m t) # fst (series_run k ?m1 t)"
    by (simp add: split_def Let_def)
  also have "\<dots> = map (\<lambda>i. (tracked m t + int i) mod 65536) (0 # map Suc [0..<k])"
    unfolding run hd by (simp add: shift comp_def del: of_nat_Suc)
  also have "0 # map Suc [0..<k] = [0..<Suc k]"
    by (simp add: map_Suc_upt upt_conv_Cons del: upt_Suc)
  finally have A: "fst (series_run (Suc k) m t) = map (\<lambda>i. (tracked m t + int i) mod 65536) [0..<Suc k]" .
  have "snd (series_run (Suc k) m t) = snd (series_run k ?m1 t)"
    by (simp add: split_def Let_def)
  then have B: "tracked (snd (series_run (Suc k) m t)) t = (tracked m t + int (Suc k)) mod 65536"
    using fin shift [of k] by simp
  from A B show ?case by blast
qed

text \<open>
  C5: from a map in which the millisecond \<open>t\<close> is not tracked, \<open>k \<le> 65536\<close> consecutive
  calls at \<open>t\<close> return the series \<open>0, 1, \<dots>, k - 1\<close> in this order, without a repeat, and
  the call after 65536 calls returns 0 again. Whatever else the map tracks, and whether or
  not a call evicts, makes no difference.
\<close>

theorem get_series_run:
  assumes "fmlookup m t = None" "k \<le> 65536"
  shows "fst (series_run k m t) = map int [0..<k]
         \<and> distinct (fst (series_run k m t))
         \<and> fst (get_series (snd (series_run 65536 m t)) t) = 0"
proof -
  have z: "tracked m t = 0" using assms(1) by (simp add: tracked_def)
  then have r: "0 \<le> tracked m t" "tracked m t < 65536" by simp_all
  have "fst (series_run k m t) = map (\<lambda>i. int i mod 65536) [0..<k]"
    using series_run_from [OF r, of k] z by simp
  also have "\<dots> = map int [0..<k]"
    using assms(2) by (intro map_cong) auto
  finally have A: "fst (series_run k m t) = map int [0..<k]" .
  have B: "distinct (map int [0..<k])"
    by (simp add: distinct_map inj_on_def)
  have "tracked (snd (series_run 65536 m t)) t = 0"
    using series_run_from [OF r, of 65536] z by simp
  then have C: "fst (get_series (snd (series_run 65536 m t)) t) = 0"
    by (simp add: get_series_fst)
  from A B C show ?thesis by simp
qed

theorem get_series_run_witness:
  "fmlookup (fmempty :: series_map) 1700000000000 = None \<and> (3::nat) \<le> 65536
   \<and> fst (series_run 3 fmempty 1700000000000) = [0, 1, 2]"
  using get_series_run [of fmempty 1700000000000 3]
  by (simp add: upt_rec [of _ "numeral _"] upt_rec [of _ "Suc _"])

lemma fcard_series_read_le: "fcard (fmdom (series_read m t)) \<le> Suc (fcard (fmdom m))"
  by (simp add: fmdom_series_read fcard_finsert_if)

lemma fcard_get_series_le: "fcard (fmdom (snd (get_series m t))) \<le> 10000"
  by (simp add: get_series_snd fmdom_series_read fcard_finsert_if fcard_fempty)

lemma reachable_bounded: "reachable m \<Longrightarrow> fcard (fmdom m) \<le> 10000"
  by (induction rule: reachable.induct) (simp_all add: fcard_fempty fcard_get_series_le)

text \<open>
  C7: a call of \<open>get_series\<close> that finds more than 10000 tracked milliseconds, the one
  it is called at included, leaves a map with exactly one entry, under that millisecond.
  With or without eviction the call returns the tracked series and stores its successor
  modulo 65536, so the counter survives the clear. A map reachable from the empty one has
  at most 10001 entries, also in the middle of a call, right after the read that may
  have added one.
\<close>

theorem get_series_eviction:
  "(fcard (fmdom (series_read m t)) > 10000 \<longrightarrow>
      snd (get_series m t) = fmupd t ((tracked m t + 1) mod 65536) fmempty
      \<and> fmdom (snd (get_series m t)) = {|t|}
      \<and> fcard (fmdom (snd (get_series m t))) = 1)
   \<and> fst (get_series m t) = tracked m t
   \<and> fmlookup (snd (get_series m t)) t = Some ((tracked m t + 1) mod 65536)
   \<and> (reachable m \<longrightarrow>
        fcard (fmdom m) \<le> 10001 \<and> fcard (fmdom (series_read m t)) \<le> 10001)"
proof -
  have A: "fcard (fmdom (series_read m t)) > 10000 \<longrightarrow>
      snd (get_series m t) = fmupd t ((tracked m t + 1) mod 65536) fmempty
      \<and> fmdom (snd (get_series m t)) = {|t|}
      \<and> fcard (fmdom (snd (get_series m t))) = 1"
    by (simp add: get_series_snd fcard_finsert_if fcard_fempty)
  have B: "fst (get_series m t) = tracked m t" by (rule get_series_fst)
  have C: "fmlookup (snd (get_series m t)) t = Some ((tracked m t + 1) mod 65536)"
    by (simp add: get_series_snd)
  have D: "reachable m \<longrightarrow>
        fcard (fmdom m) \<le> 10001 \<and> fcard (fmdom (series_read m t)) \<le> 10001"
    using reachable_bounded [of m] fcard_series_read_le [of m t] by auto
  from A B C D show ?thesis by blast
qed

lemma fcard_full_map: "fcard (fmdom (full_map n)) = n"
proof -
  have "fmdom (full_map n) = fset_of_list (map int [0..<n])"
    by (simp add: full_map_def comp_def)
  moreover have "fcard (fset_of_list (map int [0..<n])) = card (set (map int [0..<n]))"
    by (simp add: fcard.rep_eq fset_of_list.rep_eq)
  moreover have "card (set (map int [0..<n])) = length (map int [0..<n])"
    by (rule distinct_card) (simp add: distinct_map inj_on_def)
  ultimately show ?thesis by simp
qed

lemma tracked_full_map: "i < n \<Longrightarrow> tracked (full_map n) (int i) = 7"
proof -
  assume "i < n"
  then have "(int i, 7) \<in> set (map (\<lambda>i. (int i, 7::int)) [0..<n])" by auto
  moreover have "distinct (map fst (map (\<lambda>i. (int i, 7::int)) [0..<n]))"
    by (simp add: comp_def distinct_map inj_on_def)
  ultimately have "map_of (map (\<lambda>i. (int i, 7::int)) [0..<n]) (int i) = Some 7"
    by (rule_tac map_of_is_SomeI)
  then show ?thesis by (simp add: tracked_def full_map_def fmlookup_of_list)
qed

theorem get_series_eviction_witness:
  "fcard (fmdom (series_read (full_map 10001) 5)) > 10000
   \<and> get_series (full_map 10001) 5 = (7, fmupd 5 8 fmempty)
   \<and> reachable fmempty
   \<and> fcard (fmdom (series_read fmempty 5)) \<le> 10001"
proof -
  have h: "fcard (fmdom (series_read (full_map 10001) 5)) > 10000"
    by (simp add: fmdom_series_read fcard_finsert_if fcard_full_map)
  have t: "tracked (full_map 10001) 5 = 7"
    using tracked_full_map [of 5 10001] by simp
  have r: "reachable fmempty" by (rule reachable.start)
  show ?thesis
    using h t r get_series_eviction [of "full_map 10001" 5] get_series_eviction [of fmempty 5]
    by (simp add: prod_eq_iff)
qed

subsection \<open>The legacy identifier\<close>

lemma foldl_bytes:
  fixes bs :: "byte list"
  defines "f \<equiv> \<lambda>(acc::int) (b::byte). acc * 256 + uint b"
  shows "foldl f a bs = a * 256 ^ length bs + foldl f 0 bs"
proof (induction bs arbitrary: a)
  case Nil
  then show ?case by simp
next
  case (Cons b bs)
  have "foldl f a (b # bs) = foldl f (a * 256 + uint b) bs" by (simp add: f_def)
  also have "\<dots> = (a * 256 + uint b) * 256 ^ length bs + foldl f 0 bs" by (rule Cons.IH)
  finally have l: "foldl f a (b # bs) = (a * 256 + uint b) * 256 ^ length bs + foldl f 0 bs" .
  have "foldl f 0 (b # bs) = foldl f (uint b) bs" by (simp add: f_def)
  also have "\<dots> = uint b * 256 ^ length bs + foldl f 0 bs" by (rule Cons.IH)
  finally have r: "foldl f 0 (b # bs) = uint b * 256 ^ length bs + foldl f 0 bs" .
  show ?case unfolding l r by (simp add: algebra_simps)
qed

lemma from_bytes_big_append:
  "from_bytes_big (xs @ ys) = from_bytes_big xs * 256 ^ length ys + from_bytes_big ys"
  unfolding from_bytes_big_def foldl_append by (rule foldl_bytes)

lemma from_bytes_big_nonneg: "0 \<le> from_bytes_big bs"
proof (induction bs rule: rev_induct)
  case Nil
  then show ?case by (simp add: from_bytes_big_def)
next
  case (snoc b bs)
  then show ?case by (simp add: from_bytes_big_append) (simp add: from_bytes_big_def)
qed

lemma from_bytes_big_less: "from_bytes_big bs < 256 ^ length bs"
proof (induction bs rule: rev_induct)
  case Nil
  then show ?case by (simp add: from_bytes_big_def)
next
  case (snoc b bs)
  have s: "from_bytes_big [b] = uint b" by (simp add: from_bytes_big_def)
  have "uint b < 256" using uint_bounded [of b] by simp
  moreover have "from_bytes_big bs + 1 \<le> 256 ^ length bs" using snoc by simp
  then have "(from_bytes_big bs + 1) * 256 \<le> 256 ^ length bs * 256" by simp
  ultimately show ?case by (simp add: from_bytes_big_append s algebra_simps)
qed

lemma length_big_endian: "length (big_endian n x) = n"
  by (induction n x rule: big_endian.induct) simp_all

lemma from_bytes_big_big_endian: "from_bytes_big (big_endian n x) = x mod 256 ^ n"
proof (induction n x rule: big_endian.induct)
  case (1 x)
  then show ?case by (simp add: from_bytes_big_def)
next
  case (2 n x)
  have s: "from_bytes_big [word_of_int x :: byte] = x mod 256"
    by (simp add: from_bytes_big_def uint_word_of_int take_bit_eq_mod)
  have "x mod (256 * 256 ^ n) = 256 * (x div 256 mod 256 ^ n) + x mod 256"
    using zmod_zmult2_eq [of "256 ^ n" x 256] by simp
  then show ?case by (simp add: from_bytes_big_append 2 s mult.commute)
qed

lemma length_seeded_bytes: "length (fst (seeded_bytes n g)) = n"
  by (induction n arbitrary: g) (simp_all add: split_def Let_def)

lemma length_token_bytes: "length (fst (token_bytes n g)) = n"
  by (simp add: token_bytes_def)

lemma length_random_component: "length (random_component s g) = 8"
  by (simp add: random_component_def length_seeded_bytes length_token_bytes split: option.splits)

lemma mint_value:
  assumes "0 \<le> t" "t < 2 ^ 48" "0 \<le> tracked m t" "tracked m t < 65536"
  shows "mint now sysrand m (Some t) g =
           (Inr (UUID (t * 2 ^ 80 + tracked m t * 2 ^ 64
                       + from_bytes_big (random_component sysrand g))),
            snd (get_series m t))"
proof -
  let ?r = "random_component sysrand g"
  let ?s = "tracked m t"
  have tb: "to_bytes_big t 6 = Inr (big_endian 6 t)"
    using assms by (simp add: to_bytes_big_def)
  have sb: "to_bytes_big ?s 2 = Inr (big_endian 2 ?s)"
    using assms by (simp add: to_bytes_big_def)
  have len: "length (big_endian 6 t @ big_endian 2 ?s @ ?r) = 16"
    by (simp add: length_big_endian length_random_component)
  have t6: "from_bytes_big (big_endian 6 t) = t"
    using assms by (simp add: from_bytes_big_big_endian)
  have s2: "from_bytes_big (big_endian 2 ?s) = ?s"
    using assms by (simp add: from_bytes_big_big_endian)
  have val: "from_bytes_big (big_endian 6 t @ big_endian 2 ?s @ ?r)
               = t * 2 ^ 80 + ?s * 2 ^ 64 + from_bytes_big ?r"
    by (simp add: from_bytes_big_append t6 s2 length_big_endian length_random_component
        algebra_simps)
  have r0: "0 \<le> from_bytes_big ?r" by (rule from_bytes_big_nonneg)
  have r1: "from_bytes_big ?r < 2 ^ 64"
    using from_bytes_big_less [of ?r] by (simp add: length_random_component)
  have "t + 1 \<le> 2 ^ 48" using assms by simp
  then have "(t + 1) * 2 ^ 80 \<le> 2 ^ 48 * (2 ^ 80 :: int)" by (intro mult_right_mono) simp_all
  moreover have "?s + 1 \<le> 2 ^ 16" using assms by simp
  then have "(?s + 1) * 2 ^ 64 \<le> 2 ^ 16 * (2 ^ 64 :: int)" by (intro mult_right_mono) simp_all
  ultimately have hi: "t * 2 ^ 80 + ?s * 2 ^ 64 + from_bytes_big ?r < 2 ^ 128"
    using r1 by (simp add: algebra_simps)
  have lo: "0 \<le> t * 2 ^ 80 + ?s * 2 ^ 64 + from_bytes_big ?r"
    using assms r0 by simp
  have u: "UUID_of_bytes (big_endian 6 t @ big_endian 2 ?s @ ?r)
             = Inr (UUID (t * 2 ^ 80 + ?s * 2 ^ 64 + from_bytes_big ?r))"
    using len lo hi unfolding UUID_of_bytes_def UUID_of_int_def val by simp
  have gs: "get_series m t = (?s, snd (get_series m t))"
    by (simp add: prod_eq_iff get_series_fst)
  show ?thesis
    unfolding mint_def
    apply (simp only: option.case Let_def tb sum.case)
    apply (subst gs)
    apply (simp only: prod.case sb sum.case)
    using len u by simp
qed


lemma reachable_tracked: "reachable m \<Longrightarrow> 0 \<le> tracked m t \<and> tracked m t < 65536"
proof (induction rule: reachable.induct)
  case start
  then show ?case by (simp add: tracked_def)
next
  case (call m u)
  then show ?case by (simp add: get_series_snd tracked_def)
qed

lemma UUIDT_init_None: "UUIDT_init int16 now sysrand m t None g = mint now sysrand m t g"
  by (simp add: UUIDT_init_def)

text \<open>
  C6: two identifiers minted by one process at the milliseconds \<open>ta < tb\<close>, both
  representable in 48 bits, compare as their timestamps do: the value of the first is
  strictly less than the value of the second, whatever their series and random bytes
  are. Both constructions return.
\<close>

theorem UUIDT_sorted_by_time:
  assumes "reachable ma" "reachable mb" "0 \<le> ta" "ta < tb" "tb < 2 ^ 48"
  shows "\<exists>ua ub.
           fst (UUIDT_init int16 nowa sa ma (Some ta) None ga) = Inr ua
         \<and> fst (UUIDT_init int16 nowb sb mb (Some tb) None gb) = Inr ub
         \<and> int_value ua < int_value ub"
proof -
  let ?ra = "from_bytes_big (random_component sa ga)"
  let ?rb = "from_bytes_big (random_component sb gb)"
  let ?va = "ta * 2 ^ 80 + tracked ma ta * 2 ^ 64 + ?ra"
  let ?vb = "tb * 2 ^ 80 + tracked mb tb * 2 ^ 64 + ?rb"
  have a: "0 \<le> tracked ma ta" "tracked ma ta < 65536"
    using reachable_tracked [OF assms(1), of ta] by simp_all
  have b: "0 \<le> tracked mb tb" "tracked mb tb < 65536"
    using reachable_tracked [OF assms(2), of tb] by simp_all
  have ta48: "ta < 2 ^ 48" and tb0: "0 \<le> tb" using assms by simp_all
  have A: "fst (UUIDT_init int16 nowa sa ma (Some ta) None ga) = Inr (UUID ?va)"
    by (simp add: UUIDT_init_None mint_value [OF assms(3) ta48 a])
  have B: "fst (UUIDT_init int16 nowb sb mb (Some tb) None gb) = Inr (UUID ?vb)"
    by (simp add: UUIDT_init_None mint_value [OF tb0 assms(5) b])
  have "?ra < 2 ^ 64"
    using from_bytes_big_less [of "random_component sa ga"]
    by (simp add: length_random_component)
  moreover have "tracked ma ta + 1 \<le> 2 ^ 16" using a by simp
  then have "(tracked ma ta + 1) * 2 ^ 64 \<le> 2 ^ 16 * (2 ^ 64 :: int)"
    by (intro mult_right_mono) simp_all
  ultimately have low: "tracked ma ta * 2 ^ 64 + ?ra < 2 ^ 80" by (simp add: algebra_simps)
  have "ta + 1 \<le> tb" using assms(4) by simp
  then have "(ta + 1) * 2 ^ 80 \<le> tb * (2 ^ 80 :: int)" by (intro mult_right_mono) simp_all
  moreover have "0 \<le> tracked mb tb * 2 ^ 64 + ?rb"
    using b from_bytes_big_nonneg [of "random_component sb gb"] by simp
  ultimately have "?va < ?vb" using low by (simp add: algebra_simps)
  with A B show ?thesis by simp
qed

theorem UUIDT_sorted_by_time_witness:
  "reachable fmempty \<and> reachable (snd (get_series fmempty 1700000000000))
   \<and> (0::int) \<le> 1700000000000 \<and> (1700000000000::int) < 1700000000001
   \<and> (1700000000001::int) < 2 ^ 48
   \<and> (\<exists>ua ub.
         fst (UUIDT_init int_base16 0 test_random fmempty (Some 1700000000000) None None)
           = Inr ua
       \<and> fst (UUIDT_init int_base16 0 test_random (snd (get_series fmempty 1700000000000))
                (Some 1700000000001) None (Some test_random)) = Inr ub
       \<and> int_value ua < int_value ub)"
proof -
  have r0: "reachable fmempty" by (rule reachable.start)
  have r1: "reachable (snd (get_series fmempty 1700000000000))"
    by (rule reachable.call [OF r0])
  show ?thesis
    using r0 r1 UUIDT_sorted_by_time [OF r0 r1, of 1700000000000 1700000000001
        int_base16 0 test_random None 0 test_random "Some test_random"]
    by simp
qed

lemma is_valid_uuid_eq:
  "is_valid_uuid int16 s =
     (if length (hex_digits s) \<noteq> 32 then Inr False
      else case int16 (hex_digits s) of
             None \<Rightarrow> Inl ValueError
           | Some i \<Rightarrow> Inr (0 \<le> i \<and> i < 2 ^ 128))"
  by (simp add: is_valid_uuid_def hex_digits_def Let_def cong: option.case_cong)

text \<open>
  C2, amended: a \<open>uuid_str\<close> that is empty, or that does not have 32 characters once
  \<open>urn:\<close>, \<open>uuid:\<close>, braces and hyphens are removed, is ignored: the constructor
  mints a fresh identifier from the clock, the counter and the random source, as it
  does without a string. A non-empty \<open>uuid_str\<close> with 32 characters that \<open>int(hex, 16)\<close>
  rejects raises \<open>ValueError\<close> and leaves the counter as it was, and one that it
  accepts with a value below \<open>2 ^ 128\<close> gives the identifier of that value.
\<close>

theorem UUIDT_init_uuid_str:
  "(s = [] \<or> length (hex_digits s) \<noteq> 32 \<longrightarrow>
      UUIDT_init int16 now sysrand m t (Some s) g = mint now sysrand m t g)
   \<and> (s = [] \<or> length (hex_digits s) \<noteq> 32 \<longrightarrow> reachable m \<longrightarrow> 0 \<le> u \<longrightarrow> u < 2 ^ 48 \<longrightarrow>
      UUIDT_init int16 now sysrand m (Some u) (Some s) g =
        (Inr (UUID (u * 2 ^ 80 + tracked m u * 2 ^ 64
                    + from_bytes_big (random_component sysrand g))),
         snd (get_series m u)))
   \<and> (s \<noteq> [] \<and> length (hex_digits s) = 32 \<and> int16 (hex_digits s) = None \<longrightarrow>
      UUIDT_init int16 now sysrand m t (Some s) g = (Inl ValueError, m))
   \<and> (s \<noteq> [] \<and> length (hex_digits s) = 32 \<and> int16 (hex_digits s) = Some i
        \<and> 0 \<le> i \<and> i < 2 ^ 128 \<longrightarrow>
      UUIDT_init int16 now sysrand m t (Some s) g = (Inr (UUID i), m))"
proof -
  have A: "UUIDT_init int16 now sysrand m t (Some s) g = mint now sysrand m t g"
    if "s = [] \<or> length (hex_digits s) \<noteq> 32" for t
    using that by (auto simp: UUIDT_init_def is_valid_uuid_eq)
  have B: "UUIDT_init int16 now sysrand m (Some u) (Some s) g =
        (Inr (UUID (u * 2 ^ 80 + tracked m u * 2 ^ 64
                    + from_bytes_big (random_component sysrand g))),
         snd (get_series m u))"
    if "s = [] \<or> length (hex_digits s) \<noteq> 32" "reachable m" "0 \<le> u" "u < 2 ^ 48"
  proof -
    have "0 \<le> tracked m u" "tracked m u < 65536"
      using reachable_tracked [OF that(2), of u] by simp_all
    from mint_value [OF that(3,4) this] show ?thesis by (simp add: A [OF that(1)])
  qed
  have C: "UUIDT_init int16 now sysrand m t (Some s) g = (Inl ValueError, m)"
    if "s \<noteq> [] \<and> length (hex_digits s) = 32 \<and> int16 (hex_digits s) = None"
    using that by (simp add: UUIDT_init_def is_valid_uuid_eq)
  have D: "UUIDT_init int16 now sysrand m t (Some s) g = (Inr (UUID i), m)"
    if "s \<noteq> [] \<and> length (hex_digits s) = 32 \<and> int16 (hex_digits s) = Some i
        \<and> 0 \<le> i \<and> i < 2 ^ 128"
    using that
    by (simp add: UUIDT_init_def is_valid_uuid_eq UUID_of_hex_def UUID_of_int_def)
  from A B C D show ?thesis by blast
qed

lemma hex_digits_abc: "hex_digits ''abc'' = ''abc''"
  by (simp add: hex_digits_def strip_def)

lemma hex_digits_bad: "hex_digits bad_digits = bad_digits"
  by (simp add: hex_digits_def strip_def bad_digits_def)

lemma int_base16_bad: "int_base16 bad_digits = None"
  by (simp add: int_base16_def bad_digits_def hex_digit_def)

theorem UUIDT_init_uuid_str_witness:
  "length (hex_digits ''abc'') \<noteq> 32
   \<and> reachable fmempty \<and> (0::int) \<le> 1700000000000 \<and> (1700000000000::int) < 2 ^ 48
   \<and> UUIDT_init int_base16 0 test_random fmempty (Some 1700000000000) (Some ''abc'') None
       = (Inr (UUID (1700000000000 * 2 ^ 80 + tracked fmempty 1700000000000 * 2 ^ 64
                     + from_bytes_big (random_component test_random None))),
          snd (get_series fmempty 1700000000000))
   \<and> bad_digits \<noteq> [] \<and> length (hex_digits bad_digits) = 32
   \<and> int_base16 (hex_digits bad_digits) = None
   \<and> UUIDT_init int_base16 0 test_random fmempty (Some 1700000000000) (Some bad_digits) None
       = (Inl ValueError, fmempty)"
proof -
  have a: "UUIDT_init int_base16 0 test_random fmempty (Some 1700000000000) (Some ''abc'') None
       = (Inr (UUID (1700000000000 * 2 ^ 80 + tracked fmempty 1700000000000 * 2 ^ 64
                     + from_bytes_big (random_component test_random None))),
          snd (get_series fmempty 1700000000000))"
    using UUIDT_init_uuid_str [of "''abc''" int_base16 0 test_random fmempty
        "Some 1700000000000" None 1700000000000 0, THEN conjunct2, THEN conjunct1]
      reachable.start
    by (simp add: hex_digits_abc)
  have b: "UUIDT_init int_base16 0 test_random fmempty (Some 1700000000000) (Some bad_digits) None
       = (Inl ValueError, fmempty)"
    using UUIDT_init_uuid_str [of bad_digits int_base16 0 test_random fmempty
        "Some 1700000000000" None 0 0, THEN conjunct2, THEN conjunct2, THEN conjunct1]
    by (simp add: hex_digits_bad int_base16_bad) (simp add: bad_digits_def)
  show ?thesis
    using a b reachable.start
    by (simp add: hex_digits_abc hex_digits_bad int_base16_bad) (simp add: bad_digits_def)
qed

theorem UUIDT_init_uuid_str_counterexample:
  "length (hex_digits ''abc'') \<noteq> 32
   \<and> UUIDT_init int_base16 0 test_random fmempty (Some 1700000000000) (Some ''abc'') None
       = (Inr (UUID 2055173893344869611468817454567640783), fmupd 1700000000000 1 fmempty)"
  by code_simp

subsection \<open>The version 7 identifier\<close>

lemma and_mask12: "x AND 0xFFF = take_bit 12 (x :: int)"
  by (simp add: take_bit_eq_mask mask_eq_exp_minus_1)

lemma and_mask62: "x AND 0x3FFFFFFFFFFFFFFF = take_bit 62 (x :: int)"
  by (simp add: take_bit_eq_mask mask_eq_exp_minus_1)

lemma and_mask48: "x AND 0xFFFFFFFFFFFF = take_bit 48 (x :: int)"
  by (simp add: take_bit_eq_mask mask_eq_exp_minus_1)

lemma bit_bounded:
  fixes x :: int
  assumes "0 \<le> x" "x < 2 ^ k"
  shows "bit x n \<longleftrightarrow> n < k \<and> bit x n"
proof -
  have "take_bit k x = x" using assms by (rule take_bit_int_eq_self)
  then have "bit x n = bit (take_bit k x) n" by simp
  then show ?thesis by (simp add: bit_take_bit_iff)
qed

lemma bit_layout:
  fixes t ra rb ver var :: int
  assumes "0 \<le> ra" "ra < 2 ^ 12" "0 \<le> rb" "rb < 2 ^ 62"
    and ver: "\<And>k. bit ver k \<longleftrightarrow> k < 3" and var: "\<And>k. bit var k \<longleftrightarrow> k = 1"
  shows "bit ((((push_bit 80 (take_bit 48 t) OR push_bit 76 ver) OR push_bit 64 ra)
               OR push_bit 62 var) OR rb) n =
     (if n < 62 then bit rb n
      else if n = 62 then False
      else if n = 63 then True
      else if n < 76 then bit ra (n - 64)
      else if n < 79 then True
      else if n = 79 then False
      else n < 128 \<and> bit t (n - 80))"
proof -
  have a: "bit ra k \<longleftrightarrow> k < 12 \<and> bit ra k" for k
    using assms(1,2) by (rule bit_bounded)
  have b: "bit rb k \<longleftrightarrow> k < 62 \<and> bit rb k" for k
    using assms(3,4) by (rule bit_bounded)
  show ?thesis
    using a [of "n - 64"] b [of n]
    by (auto simp: bit_or_iff bit_push_bit_iff bit_take_bit_iff ver var)
qed

lemma bit_uuid7_int:
  assumes "0 \<le> ra" "ra < 2 ^ 12" "0 \<le> rb" "rb < 2 ^ 62"
  shows "bit (uuid7_int t ra rb) n =
     (if n < 62 then bit rb n
      else if n = 62 then False
      else if n = 63 then True
      else if n < 76 then bit ra (n - 64)
      else if n < 79 then True
      else if n = 79 then False
      else n < 128 \<and> bit t (n - 80))"
proof -
  have "(7::int) = mask 3" by (simp add: mask_eq_exp_minus_1)
  then have ver: "bit (7::int) k \<longleftrightarrow> k < 3" for k
    by (simp only: bit_mask_iff) simp
  have var: "bit (2::int) k \<longleftrightarrow> k = 1" for k
    by (simp add: bit_2_iff)
  show ?thesis
    unfolding uuid7_int_def Let_def and_mask48
    by (rule bit_layout [OF assms ver var])
qed

lemma uuid7_int_nonneg: "0 \<le> ra \<Longrightarrow> 0 \<le> rb \<Longrightarrow> 0 \<le> uuid7_int t ra rb"
  by (simp add: uuid7_int_def Let_def and_mask48)

lemma uuid7_int_range:
  assumes "0 \<le> ra" "ra < 2 ^ 12" "0 \<le> rb" "rb < 2 ^ 62"
  shows "0 \<le> uuid7_int t ra rb \<and> uuid7_int t ra rb < 2 ^ 128"
proof -
  let ?v = "uuid7_int t ra rb"
  have n: "0 \<le> ?v"
    using assms by (simp add: uuid7_int_nonneg)
  have "take_bit 128 ?v = ?v"
    by (rule bit_eqI) (auto simp: bit_take_bit_iff bit_uuid7_int [OF assms])
  then have "?v < 2 ^ 128"
    using take_bit_int_less_exp [of 128 ?v] by simp
  with n show ?thesis by simp
qed

lemma uuid7_rand_range:
  "0 \<le> fst (uuid7_rand sysrand random) \<and> fst (uuid7_rand sysrand random) < 2 ^ 12
   \<and> 0 \<le> snd (uuid7_rand sysrand random) \<and> snd (uuid7_rand sysrand random) < 2 ^ 62"
proof (cases random)
  case None
  let ?x = "from_bytes_little (fst (token_bytes 10 sysrand))"
  show ?thesis
    using None take_bit_int_less_exp [of 12 ?x] take_bit_int_less_exp [of 62 "drop_bit 12 ?x"]
    by (simp add: uuid7_rand_def Let_def and_mask12 and_mask62)
next
  case (Some a)
  show ?thesis
  proof (cases a)
    case (RandInt r)
    then show ?thesis
      using Some take_bit_int_less_exp [of 12 r] take_bit_int_less_exp [of 62 "drop_bit 12 r"]
      by (simp add: uuid7_rand_def and_mask12 and_mask62)
  next
    case (RandGen g)
    have a: "int (x mod 2 ^ 12) < 2 ^ 12" for x :: nat
      by (simp add: zmod_int)
    have "int (x mod 2 ^ 56) < 2 ^ 56" for x :: nat
      by (simp add: zmod_int)
    moreover have "(2::int) ^ 56 < 2 ^ 62" by simp
    ultimately have b: "int (x mod 2 ^ 56) < 2 ^ 62" for x :: nat
      by (rule less_trans)
    show ?thesis
      using Some RandGen a [of "entropy g (consumed g)"] b [of "entropy g (Suc (consumed g))"]
      by (simp add: uuid7_rand_def getrandbits_def Let_def)
  qed
qed


lemma uuid7_returns:
  assumes "\<forall>s. unix_ms_time = Some (TimeStr s) \<longrightarrow> iso_ms s \<noteq> None"
  shows "\<exists>t. uuid7 iso_ms time_ns sysrand unix_ms_time random =
           Inr (UUID (uuid7_int t (fst (uuid7_rand sysrand random))
                                  (snd (uuid7_rand sysrand random))))"
proof -
  let ?ra = "fst (uuid7_rand sysrand random)" and ?rb = "snd (uuid7_rand sysrand random)"
  have ok: "UUID_of_int (uuid7_int t ?ra ?rb) = Inr (UUID (uuid7_int t ?ra ?rb))" for t
    using uuid7_int_range [of ?ra ?rb t] uuid7_rand_range [of sysrand random]
    by (simp add: UUID_of_int_def)
  show ?thesis
  proof (cases unix_ms_time)
    case None
    then show ?thesis
      by (intro exI [of _ "time_ns div 10 ^ 6"])
        (simp add: uuid7_def and_then_def split_def Let_def ok)
  next
    case (Some a)
    show ?thesis
    proof (cases a)
      case (TimeInt t)
      then show ?thesis using Some
        by (intro exI [of _ t]) (simp add: uuid7_def and_then_def split_def Let_def ok)
    next
      case (TimeStr s)
      then obtain t where "iso_ms s = Some t" using assms Some by auto
      then show ?thesis using Some TimeStr
        by (intro exI [of _ t]) (simp add: uuid7_def and_then_def split_def Let_def ok)
    qed
  qed
qed

text \<open>
  C8: whatever the timestamp argument (absent, an integer, or an ISO-8601 string that
  \<open>fromisoformat\<close> accepts) and whatever the randomness argument (absent, a generator,
  or an integer seed), \<open>uuid7\<close> returns, and the value it returns has bits 79 to 76
  equal to 0111 and bits 63 and 62 equal to 10.
\<close>

theorem uuid7_version_variant:
  assumes "\<forall>s. unix_ms_time = Some (TimeStr s) \<longrightarrow> iso_ms s \<noteq> None"
  shows "\<exists>u. uuid7 iso_ms time_ns sysrand unix_ms_time random = Inr u
           \<and> \<not> bit (int_value u) 79 \<and> bit (int_value u) 78
           \<and> bit (int_value u) 77 \<and> bit (int_value u) 76
           \<and> bit (int_value u) 63 \<and> \<not> bit (int_value u) 62"
proof -
  let ?ra = "fst (uuid7_rand sysrand random)" and ?rb = "snd (uuid7_rand sysrand random)"
  from uuid7_returns [OF assms] obtain t where
    u: "uuid7 iso_ms time_ns sysrand unix_ms_time random = Inr (UUID (uuid7_int t ?ra ?rb))"
    by blast
  have r: "0 \<le> ?ra" "?ra < 2 ^ 12" "0 \<le> ?rb" "?rb < 2 ^ 62"
    using uuid7_rand_range [of sysrand random] by simp_all
  show ?thesis
    unfolding u by (simp add: bit_uuid7_int [OF r])
qed

theorem uuid7_version_variant_witness:
  "\<exists>u. uuid7 no_iso 0 test_random (Some (TimeInt (- 1))) (Some (RandInt (- 1))) = Inr u
         \<and> \<not> bit (int_value u) 79 \<and> bit (int_value u) 78
         \<and> bit (int_value u) 77 \<and> bit (int_value u) 76
         \<and> bit (int_value u) 63 \<and> \<not> bit (int_value u) 62"
  using uuid7_version_variant [of "Some (TimeInt (- 1))" no_iso 0 test_random "Some (RandInt (- 1))"]
  by simp

text \<open>
  C4, amended: with an integer seed, the field \<open>rand_a\<close> of the result (bits 75 to 64)
  is the low 12 bits of the seed, and the low 62-bit field of the result is the seed
  shifted right by 12 bits and masked to 62 bits, the width of the mask
  \<open>0x03FFFFFFFFFFFFFFF\<close>: bits 68 to 73 of the seed reach bits 56 to 61 of the result.
\<close>

theorem uuid7_integer_seed:
  assumes "\<forall>s. unix_ms_time = Some (TimeStr s) \<longrightarrow> iso_ms s \<noteq> None"
  shows "\<exists>u. uuid7 iso_ms time_ns sysrand unix_ms_time (Some (RandInt seed)) = Inr u
           \<and> take_bit 12 (drop_bit 64 (int_value u)) = take_bit 12 seed
           \<and> take_bit 62 (int_value u) = take_bit 62 (drop_bit 12 seed)"
proof -
  let ?R = "uuid7_rand sysrand (Some (RandInt seed))"
  from uuid7_returns [OF assms] obtain t where
    u: "uuid7 iso_ms time_ns sysrand unix_ms_time (Some (RandInt seed))
          = Inr (UUID (uuid7_int t (fst ?R) (snd ?R)))"
    by blast
  have r: "0 \<le> fst ?R" "fst ?R < 2 ^ 12" "0 \<le> snd ?R" "snd ?R < 2 ^ 62"
    using uuid7_rand_range [of sysrand "Some (RandInt seed)"] by simp_all
  have a: "fst ?R = take_bit 12 seed" and b: "snd ?R = take_bit 62 (drop_bit 12 seed)"
    by (simp_all add: uuid7_rand_def and_mask12 and_mask62)
  have A: "take_bit 12 (drop_bit 64 (uuid7_int t (fst ?R) (snd ?R))) = take_bit 12 (fst ?R)"
    by (rule bit_eqI) (auto simp: bit_take_bit_iff bit_drop_bit_eq bit_uuid7_int [OF r])
  have B: "take_bit 62 (uuid7_int t (fst ?R) (snd ?R)) = take_bit 62 (snd ?R)"
    by (rule bit_eqI) (auto simp: bit_take_bit_iff bit_uuid7_int [OF r])
  show ?thesis unfolding u using A B by (simp add: a b)
qed

theorem uuid7_integer_seed_witness:
  "\<exists>u. uuid7 no_iso 0 test_random (Some (TimeInt 1)) (Some (RandInt (2 ^ 68))) = Inr u
         \<and> take_bit 12 (drop_bit 64 (int_value u)) = take_bit 12 (2 ^ 68)
         \<and> take_bit 62 (int_value u) = take_bit 62 (drop_bit 12 (2 ^ 68))"
  using uuid7_integer_seed [of "Some (TimeInt 1)" no_iso 0 test_random "2 ^ 68"]
  by simp

theorem uuid7_integer_seed_counterexample:
  "uuid7 no_iso 0 test_random (Some (TimeInt 1)) (Some (RandInt (2 ^ 68)))
     = Inr (UUID 1737840161125660331343872)
   \<and> take_bit 62 (1737840161125660331343872 :: int) = 2 ^ 56
   \<and> take_bit 56 (drop_bit 12 (2 ^ 68 :: int)) = 0
   \<and> bit (1737840161125660331343872 :: int) 56"
  by code_simp

subsection \<open>Creating a model with a unique slug\<close>

lemma create_attempts_calls:
  "create_attempts M cf sn rounds st g calls = (r, st', calls') \<Longrightarrow>
     \<exists>new. calls' = calls @ new \<and> length new \<le> length rounds
       \<and> (\<forall>c \<in> set (butlast new). is_IntegrityError (snd c))
       \<and> (\<forall>c \<in> set new. \<exists>i g'. i \<in> set rounds \<and> fst c = fst (candidate_slug M sn i g'))
       \<and> (new = [] \<longrightarrow> rounds = [] \<and> r = Inl exhausted)
       \<and> (new \<noteq> [] \<longrightarrow>
            (is_IntegrityError (snd (last new)) \<longrightarrow>
               length new = length rounds \<and> r = Inl exhausted)
          \<and> (\<not> is_IntegrityError (snd (last new)) \<longrightarrow> r = snd (last new)))"
proof (induction rounds arbitrary: st g calls)
  case Nil
  then show ?case by (simp add: exhausted_def)
next
  case (Cons i rest)
  obtain slug g1 where cand: "candidate_slug M sn i g = (slug, g1)" by (cases "candidate_slug M sn i g")
  obtain out st1 where call: "cf st slug = (out, st1)" by (cases "cf st slug")
  have slug: "slug = fst (candidate_slug M sn i g)" using cand by simp
  show ?case
  proof (cases "is_IntegrityError out")
    case True
    then obtain msg where out: "out = Inl (IntegrityError msg)"
      by (auto simp: is_IntegrityError_def split: sum.splits exn.splits)
    from Cons.prems have
      "create_attempts M cf sn rest st1 g1 (calls @ [(slug, out)]) = (r, st', calls')"
      by (simp add: cand call out)
    from Cons.IH [OF this] obtain new where
      n: "calls' = (calls @ [(slug, out)]) @ new" "length new \<le> length rest"
        "\<forall>c \<in> set (butlast new). is_IntegrityError (snd c)"
        "\<forall>c \<in> set new. \<exists>i g'. i \<in> set rest \<and> fst c = fst (candidate_slug M sn i g')"
        "new = [] \<longrightarrow> rest = [] \<and> r = Inl exhausted"
        "new \<noteq> [] \<longrightarrow>
            (is_IntegrityError (snd (last new)) \<longrightarrow>
               length new = length rest \<and> r = Inl exhausted)
          \<and> (\<not> is_IntegrityError (snd (last new)) \<longrightarrow> r = snd (last new))"
      by blast
    let ?new = "(slug, out) # new"
    have 1: "calls' = calls @ ?new" using n(1) by simp
    have 2: "length ?new \<le> length (i # rest)" using n(2) by simp
    have 3: "\<forall>c \<in> set (butlast ?new). is_IntegrityError (snd c)"
      using n(3) True by (cases new) auto
    have 4: "\<forall>c \<in> set ?new. \<exists>j g'. j \<in> set (i # rest) \<and> fst c = fst (candidate_slug M sn j g')"
    proof
      fix c assume "c \<in> set ?new"
      then consider "c = (slug, out)" | "c \<in> set new" by auto
      then show "\<exists>j g'. j \<in> set (i # rest) \<and> fst c = fst (candidate_slug M sn j g')"
      proof cases
        case 1
        then have "i \<in> set (i # rest) \<and> fst c = fst (candidate_slug M sn i g)"
          using slug by simp
        then show ?thesis by blast
      next
        case 2
        with n(4) obtain j g' where "j \<in> set rest" "fst c = fst (candidate_slug M sn j g')"
          by blast
        then have "j \<in> set (i # rest) \<and> fst c = fst (candidate_slug M sn j g')" by simp
        then show ?thesis by blast
      qed
    qed
    have 5: "is_IntegrityError (snd (last ?new)) \<longrightarrow>
               length ?new = length (i # rest) \<and> r = Inl exhausted"
      using n(5,6) True by (cases "new = []") auto
    have 6: "\<not> is_IntegrityError (snd (last ?new)) \<longrightarrow> r = snd (last ?new)"
      using n(5,6) True by (cases "new = []") auto
    show ?thesis
      by (rule exI [of _ ?new]) (use 1 2 3 4 5 6 in blast)
  next
    case False
    from Cons.prems False have res: "r = out" "calls' = calls @ [(slug, out)]"
      by (auto simp: cand call is_IntegrityError_def split: sum.splits exn.splits)
    show ?thesis
      by (rule exI [of _ "[(slug, out)]"]) (use res False slug in auto)
  qed
qed

lemma choices_length: "length (fst (choices n seq g)) = n"
  by (induction n arbitrary: g) (simp_all add: split_def Let_def)

lemma choices_subset: "seq \<noteq> [] \<Longrightarrow> set (fst (choices n seq g)) \<subseteq> set seq"
  by (induction n arbitrary: g) (simp_all add: split_def Let_def choice_def)

lemma choices_advance: "snd (choices n seq g) = advance g n"
proof (induction n arbitrary: g)
  case 0
  then show ?case by (simp add: advance_def)
next
  case (Suc n)
  then show ?case by (simp add: split_def Let_def choice_def advance_def)
qed

lemma candidate_slug_advance:
  "snd (candidate_slug M base k (advance g (4 * (k - 1)))) = advance g (4 * k)"
proof (cases k)
  case 0
  then show ?thesis by (simp add: candidate_slug_def)
next
  case (Suc j)
  then show ?thesis
    by (simp add: candidate_slug_def split_def Let_def generate_random_short_suffix_def
        choices_advance) (simp add: advance_def)
qed

lemma nth_slug_0: "nth_slug M base g 0 = base"
  by (simp add: nth_slug_def candidate_slug_def)

lemma nth_slug_retry:
  assumes "0 < k"
  shows "\<exists>suffix. nth_slug M base g k = slice_to base (M - 5) @ ''-'' @ suffix
           \<and> length suffix = 4 \<and> set suffix \<subseteq> set ascii_letters"
proof -
  let ?g = "advance g (4 * (k - 1))"
  let ?suffix = "fst (generate_random_short_suffix ?g)"
  have "ascii_letters \<noteq> []" by (simp add: ascii_letters_def)
  then have "length ?suffix = 4 \<and> set ?suffix \<subseteq> set ascii_letters"
    by (simp add: generate_random_short_suffix_def choices_length choices_subset)
  moreover have "nth_slug M base g k = slice_to base (M - 5) @ ''-'' @ ?suffix"
    using assms by (simp add: nth_slug_def candidate_slug_def split_def Let_def)
  ultimately show ?thesis by blast
qed

lemma create_attempts_step:
  assumes "candidate_slug M base i g = (slug, g1)" "cf st slug = (out, st1)"
  shows "create_attempts M cf base (i # rest) st g calls =
           (if is_IntegrityError out
            then create_attempts M cf base rest st1 g1 (calls @ [(slug, out)])
            else (out, st1, calls @ [(slug, out)]))"
  using assms by (auto simp: is_IntegrityError_def split: sum.splits exn.splits)

lemma create_attempts_rounds:
  fixes cf :: "'s \<Rightarrow> string \<Rightarrow> (exn + 'a) \<times> 's"
  assumes "i \<le> N"
    and "create_attempts M cf base [i..<N] (nth_store cf (nth_slug M base g) st i)
           (advance g (4 * (i - 1)))
           (map (\<lambda>k. (nth_slug M base g k, nth_outcome cf (nth_slug M base g) st k)) [0..<i])
         = (r, st', calls)"
    and "\<forall>k<i. is_IntegrityError (nth_outcome cf (nth_slug M base g) st k)"
  shows "\<exists>n. i \<le> n \<and> n \<le> N
     \<and> calls = map (\<lambda>k. (nth_slug M base g k, nth_outcome cf (nth_slug M base g) st k)) [0..<n]
     \<and> st' = nth_store cf (nth_slug M base g) st n
     \<and> (\<forall>k. Suc k < n \<longrightarrow> is_IntegrityError (nth_outcome cf (nth_slug M base g) st k))
     \<and> (if n = 0 \<or> is_IntegrityError (nth_outcome cf (nth_slug M base g) st (n - 1))
         then n = N \<and> r = Inl exhausted
         else r = nth_outcome cf (nth_slug M base g) st (n - 1))"
  using assms
proof (induction "N - i" arbitrary: i)
  case 0
  then have "i = N" by simp
  with 0 show ?case
    by (intro exI [of _ N]) (auto simp: exhausted_def)
next
  case (Suc d)
  let ?slug = "nth_slug M base g"
  let ?out = "nth_outcome cf ?slug st"
  let ?log = "\<lambda>n. map (\<lambda>k. (?slug k, ?out k)) [0..<n]"
  from Suc.hyps(2) have lt: "i < N" by simp
  then have up: "[i..<N] = i # [Suc i..<N]" by (simp add: upt_conv_Cons)
  have cand: "candidate_slug M base i (advance g (4 * (i - 1))) = (?slug i, advance g (4 * i))"
    using candidate_slug_advance [of M base i g] by (simp add: prod_eq_iff nth_slug_def)
  have call: "cf (nth_store cf ?slug st i) (?slug i) = (?out i, nth_store cf ?slug st (Suc i))"
    by (simp add: prod_eq_iff nth_outcome_def)
  have log: "?log i @ [(?slug i, ?out i)] = ?log (Suc i)" by simp
  have step: "create_attempts M cf base [i..<N] (nth_store cf ?slug st i)
                (advance g (4 * (i - 1))) (?log i)
              = (if is_IntegrityError (?out i)
                 then create_attempts M cf base [Suc i..<N] (nth_store cf ?slug st (Suc i))
                        (advance g (4 * (Suc i - 1))) (?log (Suc i))
                 else (?out i, nth_store cf ?slug st (Suc i), ?log (Suc i)))"
    unfolding up log [symmetric]
    using create_attempts_step [where cf = cf and st = "nth_store cf ?slug st i", OF cand call]
    by simp
  show ?case
  proof (cases "is_IntegrityError (?out i)")
    case True
    from Suc.prems(2) have
      "create_attempts M cf base [Suc i..<N] (nth_store cf ?slug st (Suc i))
         (advance g (4 * (Suc i - 1))) (?log (Suc i)) = (r, st', calls)"
      unfolding step using True by simp
    moreover have "\<forall>k<Suc i. is_IntegrityError (?out k)"
      using Suc.prems(3) True by (auto simp: less_Suc_eq)
    moreover have "d = N - Suc i" "Suc i \<le> N" using Suc.hyps(2) lt by simp_all
    ultimately obtain n where n: "Suc i \<le> n" "n \<le> N" "calls = ?log n"
        "st' = nth_store cf ?slug st n"
        "\<forall>k. Suc k < n \<longrightarrow> is_IntegrityError (?out k)"
        "if n = 0 \<or> is_IntegrityError (?out (n - 1))
         then n = N \<and> r = Inl exhausted else r = ?out (n - 1)"
      using Suc.hyps(1) [of "Suc i"] by blast
    show ?thesis
      by (rule exI [of _ n]) (use n in auto)
  next
    case False
    from Suc.prems(2) [unfolded step] False
    have "(?out i, nth_store cf ?slug st (Suc i), ?log (Suc i)) = (r, st', calls)"
      by (simp only: if_False)
    then have res: "r = ?out i" "st' = nth_store cf ?slug st (Suc i)" "calls = ?log (Suc i)"
      by (simp_all only: prod.inject)
    show ?thesis
      by (rule exI [of _ "Suc i"]) (use res False lt Suc.prems(3) in \<open>auto simp: less_Suc_eq\<close>)
  qed
qed

text \<open>
  C3, amended: \<open>create_with_slug\<close> makes between one and ten calls of \<open>create_func\<close>.
  The first is made with the base slug and each later one with a new candidate: the
  base slug cut to \<open>MAX_SLUG_LENGTH - 5\<close> characters, a hyphen and four ASCII letters
  drawn afresh. Only an \<open>IntegrityError\<close> is followed by another call, and it is so
  whichever constraint it reports: every call but the last raised one. An
  \<open>IntegrityError\<close> in the last call means that it was the tenth, and the result is the
  exception of exhausted retries. Any other outcome of a call ends the loop at once: what
  the call returned or raised is what \<open>create_with_slug\<close> returns or raises.
\<close>

theorem create_with_slug_retry:
  assumes "create_with_slug slugify M cf default_slug name st g = (r, st', calls)"
    and "base = slugified_name slugify M default_slug name"
  shows "\<exists>n. 1 \<le> n \<and> n \<le> 10
     \<and> calls = map (\<lambda>k. (nth_slug M base g k, nth_outcome cf (nth_slug M base g) st k)) [0..<n]
     \<and> st' = nth_store cf (nth_slug M base g) st n
     \<and> (\<forall>k. Suc k < n \<longrightarrow> is_IntegrityError (nth_outcome cf (nth_slug M base g) st k))
     \<and> (if is_IntegrityError (nth_outcome cf (nth_slug M base g) st (n - 1))
         then n = 10 \<and> r = Inl exhausted
         else r = nth_outcome cf (nth_slug M base g) st (n - 1))
     \<and> nth_slug M base g 0 = base
     \<and> (\<forall>k. 0 < k \<longrightarrow>
           (\<exists>suffix. nth_slug M base g k = slice_to base (M - 5) @ ''-'' @ suffix
              \<and> length suffix = 4 \<and> set suffix \<subseteq> set ascii_letters))"
proof -
  let ?out = "nth_outcome cf (nth_slug M base g) st"
  have g0: "advance g (4 * (0 - 1)) = g" by (simp add: advance_def)
  from assms have "create_attempts M cf base [0..<10] (nth_store cf (nth_slug M base g) st 0)
      (advance g (4 * (0 - 1)))
      (map (\<lambda>k. (nth_slug M base g k, ?out k)) [0..<0]) = (r, st', calls)"
    unfolding g0 by (simp add: create_with_slug_def)
  from create_attempts_rounds [OF _ this]
  obtain n where n: "n \<le> 10"
      "calls = map (\<lambda>k. (nth_slug M base g k, ?out k)) [0..<n]"
      "st' = nth_store cf (nth_slug M base g) st n"
      "\<forall>k. Suc k < n \<longrightarrow> is_IntegrityError (?out k)"
      "if n = 0 \<or> is_IntegrityError (?out (n - 1))
       then n = 10 \<and> r = Inl exhausted else r = ?out (n - 1)"
    by auto
  have pos: "1 \<le> n" using n(5) by (cases "n = 0") simp_all
  then have last: "if is_IntegrityError (?out (n - 1))
       then n = 10 \<and> r = Inl exhausted else r = ?out (n - 1)"
    using n(5) by (simp split: if_splits)
  have shape: "\<forall>k. 0 < k \<longrightarrow>
           (\<exists>suffix. nth_slug M base g k = slice_to base (M - 5) @ ''-'' @ suffix
              \<and> length suffix = 4 \<and> set suffix \<subseteq> set ascii_letters)"
    using nth_slug_retry [of _ M base g] by blast
  show ?thesis
    using pos n(1) n(2) n(3) n(4) last nth_slug_0 [of M base g] shape
    apply -
    apply (rule exI [of _ n])
    apply (intro conjI)
            apply assumption+
    done
qed

theorem create_with_slug_retry_witness:
  "create_with_slug keep_slug 48 scripted [] (Some ''acme'')
       [Inl not_null_violation, Inl connection_lost] test_random
     = (Inl connection_lost, [],
        [(''acme'', Inl not_null_violation), (''acme-STUV'', Inl connection_lost)])
   \<and> ''acme'' = slugified_name keep_slug 48 [] (Some ''acme'')
   \<and> (\<exists>n. 1 \<le> n \<and> n \<le> 10
        \<and> [(''acme'', Inl not_null_violation), (''acme-STUV'', Inl connection_lost)]
            = map (\<lambda>k. (nth_slug 48 ''acme'' test_random k,
                          nth_outcome scripted (nth_slug 48 ''acme'' test_random)
                            [Inl not_null_violation, Inl connection_lost] k)) [0..<n]
        \<and> [] = nth_store scripted (nth_slug 48 ''acme'' test_random)
                   [Inl not_null_violation, Inl connection_lost] n)
   \<and> nth_slug 48 ''acme'' test_random 1 = ''acme-STUV''
   \<and> is_IntegrityError (Inl not_null_violation :: exn + string)
   \<and> \<not> is_IntegrityError (Inl connection_lost :: exn + string)"
proof -
  let ?script = "[Inl not_null_violation, Inl connection_lost] :: (exn + string) list"
  let ?slug = "nth_slug 48 ''acme'' test_random"
  have e: "create_with_slug keep_slug 48 scripted [] (Some ''acme'') ?script test_random
     = (Inl connection_lost, [],
        [(''acme'', Inl not_null_violation), (''acme-STUV'', Inl connection_lost)])"
    by code_simp
  have b: "''acme'' = slugified_name keep_slug 48 [] (Some ''acme'')"
    by code_simp
  from create_with_slug_retry [OF e b] obtain n where
    n: "1 \<le> n" "n \<le> 10"
      "[(''acme'', Inl not_null_violation), (''acme-STUV'', Inl connection_lost)]
          = map (\<lambda>k. (?slug k, nth_outcome scripted ?slug ?script k)) [0..<n]"
      "[] = nth_store scripted ?slug ?script n"
    by (elim exE conjE)
  have x: "\<exists>n. 1 \<le> n \<and> n \<le> 10
        \<and> [(''acme'', Inl not_null_violation), (''acme-STUV'', Inl connection_lost)]
            = map (\<lambda>k. (?slug k, nth_outcome scripted ?slug ?script k)) [0..<n]
        \<and> [] = nth_store scripted ?slug ?script n"
    using n by (intro exI [of _ n] conjI)
  have s: "?slug 1 = ''acme-STUV''"
    by code_simp
  have i: "is_IntegrityError (Inl not_null_violation :: exn + string)"
    "\<not> is_IntegrityError (Inl connection_lost :: exn + string)"
    by (simp_all add: is_IntegrityError_def not_null_violation_def connection_lost_def)
  from e b x s i show ?thesis
    by (intro conjI)
qed

theorem create_with_slug_retry_counterexample:
  "create_with_slug keep_slug 48 scripted [] (Some ''acme'') [Inl not_null_violation] test_random
     = (Inr ''acme-STUV'', [],
        [(''acme'', Inl not_null_violation), (''acme-STUV'', Inr ''acme-STUV'')])"
  by code_simp

text \<open>
  The slugs of the retries: for \<open>MAX_SLUG_LENGTH\<close> of at least 5, the slug of a round
  after the first is the base slug cut to \<open>MAX_SLUG_LENGTH - 5\<close> characters, a hyphen and
  four ASCII letters, and no slug passed to \<open>create_func\<close> is longer than
  \<open>MAX_SLUG_LENGTH\<close> when a name is given or the default slug is within that length.
\<close>

lemma candidate_slug_retry:
  assumes "5 \<le> M" "0 < i"
  shows "\<exists>suffix. fst (candidate_slug M sn i g) = take (nat (M - 5)) sn @ ''-'' @ suffix
           \<and> length suffix = 4 \<and> set suffix \<subseteq> set ascii_letters"
proof -
  let ?suffix = "fst (generate_random_short_suffix g)"
  have "ascii_letters \<noteq> []" by (simp add: ascii_letters_def)
  then have "length ?suffix = 4 \<and> set ?suffix \<subseteq> set ascii_letters"
    by (simp add: generate_random_short_suffix_def choices_length choices_subset)
  moreover have "fst (candidate_slug M sn i g) = take (nat (M - 5)) sn @ ''-'' @ ?suffix"
    using assms by (simp add: candidate_slug_def slice_to_def split_def Let_def)
  ultimately show ?thesis by blast
qed

lemma candidate_slug_length:
  assumes "5 \<le> M" "i = 0 \<longrightarrow> int (length sn) \<le> M"
  shows "int (length (fst (candidate_slug M sn i g))) \<le> M"
proof (cases "i = 0")
  case True
  then show ?thesis using assms by (simp add: candidate_slug_def)
next
  case False
  then have "0 < i" by simp
  from candidate_slug_retry [OF assms(1) this, of sn g] obtain suffix where
    "fst (candidate_slug M sn i g) = take (nat (M - 5)) sn @ ''-'' @ suffix" "length suffix = 4"
    by blast
  then show ?thesis using assms(1) by simp
qed

lemma slugified_name_length:
  "0 \<le> M \<Longrightarrow> int (length (slugified_name slugify M default_slug (Some n))) \<le> M"
  by (simp add: slugified_name_def slice_to_def)

lemma create_with_slug_slug_lengths:
  assumes "5 \<le> M" "name = None \<longrightarrow> int (length default_slug) \<le> M"
    and "create_with_slug slugify M cf default_slug name st g = (r, st', calls)"
  shows "\<forall>c \<in> set calls. int (length (fst c)) \<le> M"
proof -
  let ?sn = "slugified_name slugify M default_slug name"
  have sn: "int (length ?sn) \<le> M"
  proof (cases name)
    case None
    then show ?thesis using assms(2) by (simp add: slugified_name_def)
  next
    case (Some n)
    then show ?thesis using assms(1) slugified_name_length [of M slugify default_slug n] by simp
  qed
  from assms(3) have "create_attempts M cf ?sn [0..<10] st g [] = (r, st', calls)"
    by (simp add: create_with_slug_def)
  from create_attempts_calls [OF this] obtain new where
    "calls = [] @ new"
    "\<forall>c \<in> set new. \<exists>i g'. i \<in> set [0..<10] \<and> fst c = fst (candidate_slug M ?sn i g')"
    by blast
  then have "\<forall>c \<in> set calls. \<exists>i g'. fst c = fst (candidate_slug M ?sn i g')"
    by simp blast
  then show ?thesis
    using candidate_slug_length [OF assms(1), of _ ?sn] sn by metis
qed

text \<open>
  C9 at a default slug of 49 characters and no name, with \<open>MAX_SLUG_LENGTH = 48\<close>: the
  first attempt passes the default slug as it is, 49 characters long, to \<open>create_func\<close>.
  Only a name is cut to \<open>MAX_SLUG_LENGTH\<close>.
\<close>

theorem create_with_slug_default_slug_too_long:
  "create_with_slug keep_slug 48 scripted (replicate 49 CHR ''a'') None [] test_random
     = (Inr (replicate 49 CHR ''a''), [],
        [(replicate 49 CHR ''a'', Inr (replicate 49 CHR ''a''))])
   \<and> \<not> int (length (replicate 49 CHR ''a'')) \<le> 48"
  by code_simp

end
